theory Spec2Isabelle
  imports Main "HOL-Library.Multiset"
begin

section \<open>The port scanner of exercise 05 (package main)\<close>

text \<open>
  A Go \<open>string\<close> is a sequence of bytes, and so is a HOL \<open>string\<close> (a list of
  8-bit \<open>char\<close>s): \<open>len(s)\<close> is \<open>length s\<close> and \<open>s[:n]\<close> is \<open>take n s\<close>.
  A Go \<open>int\<close> is modelled as \<open>int\<close>; the only arithmetic the scanner does on
  one is the range loop of \<open>parsePorts\<close>, which stays within 1..65535, and the
  bound of \<open>strconv.Atoi\<close> (64-bit) is written out.
\<close>

subsection \<open>Library functions the scanner calls\<close>

text \<open>\<open>strings.HasPrefix\<close> and \<open>strings.Contains\<close>.\<close>

definition HasPrefix :: "string \<Rightarrow> string \<Rightarrow> bool" where
  "HasPrefix s pre \<longleftrightarrow> take (length pre) s = pre"

fun Contains :: "string \<Rightarrow> string \<Rightarrow> bool" where
  "Contains [] substr \<longleftrightarrow> substr = []"
| "Contains (c # cs) substr \<longleftrightarrow> HasPrefix (c # cs) substr \<or> Contains cs substr"

text \<open>
  \<open>strings.ReplaceAll s old new\<close> for a non-empty \<open>old\<close> (both calls of the
  scanner pass a one-byte \<open>old\<close>): the non-overlapping occurrences of \<open>old\<close>,
  found from left to right, are replaced by \<open>new\<close>.
\<close>

function ReplaceAll :: "string \<Rightarrow> string \<Rightarrow> string \<Rightarrow> string" where
  "ReplaceAll [] old new = []"
| "ReplaceAll (c # cs) old new =
     (if old \<noteq> [] \<and> HasPrefix (c # cs) old
      then new @ ReplaceAll (drop (length old) (c # cs)) old new
      else c # ReplaceAll cs old new)"
  by pat_completeness auto
termination
  by (relation "measure (\<lambda>(s, old, new). length s)") auto

text \<open>
  \<open>strings.Split s sep\<close> for a one-byte separator: every piece between two
  separators, empty pieces included; the empty string gives one empty piece.
\<close>

fun Split :: "string \<Rightarrow> char \<Rightarrow> string list" where
  "Split [] sep = ['''']"
| "Split (c # cs) sep =
     (if c = sep then [] # Split cs sep
      else (case Split cs sep of
              [] \<Rightarrow> [c # '''']
            | w # ws \<Rightarrow> (c # w) # ws))"

text \<open>
  \<open>utf8.DecodeRuneInString\<close> and \<open>utf8.DecodeLastRuneInString\<close>: the first
  (last) rune of a byte string and its width. An invalid or truncated encoding
  is \<open>RuneError\<close> of width 1; the empty string is \<open>RuneError\<close> of width 0.
\<close>

definition RuneError :: nat where
  "RuneError = 0xFFFD"

definition byte :: "char \<Rightarrow> nat" where
  "byte c = of_char c"

definition cont :: "nat \<Rightarrow> nat" where
  \<comment> \<open>the six payload bits of a continuation byte, \<open>b & 0x3F\<close>\<close>
  "cont b = b mod 64"

definition inRange :: "nat \<Rightarrow> nat \<Rightarrow> nat \<Rightarrow> bool" where
  "inRange lo hi b \<longleftrightarrow> lo \<le> b \<and> b \<le> hi"

definition acceptRange :: "nat \<Rightarrow> nat \<times> nat" where
  \<comment> \<open>bounds of the second byte, by first byte (the table \<open>first\<close> with \<open>acceptRanges\<close>)\<close>
  "acceptRange b0 =
     (if b0 = 0xE0 then (0xA0, 0xBF)
      else if b0 = 0xED then (0x80, 0x9F)
      else if b0 = 0xF0 then (0x90, 0xBF)
      else if b0 = 0xF4 then (0x80, 0x8F)
      else (0x80, 0xBF))"

definition runeSize :: "nat \<Rightarrow> nat" where
  \<comment> \<open>width announced by a first byte; 1 for ASCII and for an invalid first byte\<close>
  "runeSize b0 =
     (if inRange 0xC2 0xDF b0 then 2
      else if inRange 0xE0 0xEF b0 then 3
      else if inRange 0xF0 0xF4 b0 then 4
      else 1)"

definition DecodeRuneInString :: "string \<Rightarrow> nat \<times> nat" where
  "DecodeRuneInString s =
     (case map byte s of
        [] \<Rightarrow> (RuneError, 0)
      | b0 # bs \<Rightarrow>
          if runeSize b0 = 1 then ((if b0 < 0x80 then b0 else RuneError), 1)
          else if length bs + 1 < runeSize b0 then (RuneError, 1)
          else if \<not> inRange (fst (acceptRange b0)) (snd (acceptRange b0)) (bs ! 0)
            then (RuneError, 1)
          else if runeSize b0 = 2 then ((b0 mod 32) * 64 + cont (bs ! 0), 2)
          else if \<not> inRange 0x80 0xBF (bs ! 1) then (RuneError, 1)
          else if runeSize b0 = 3
            then ((b0 mod 16) * 4096 + cont (bs ! 0) * 64 + cont (bs ! 1), 3)
          else if \<not> inRange 0x80 0xBF (bs ! 2) then (RuneError, 1)
          else ((b0 mod 8) * 262144 + cont (bs ! 0) * 4096 + cont (bs ! 1) * 64
                  + cont (bs ! 2), 4))"

definition RuneStart :: "nat \<Rightarrow> bool" where
  "RuneStart b \<longleftrightarrow> \<not> inRange 0x80 0xBF b"

definition lastRuneStart :: "string \<Rightarrow> nat" where
  \<comment> \<open>the backward search of \<open>DecodeLastRuneInString\<close>: from the byte before the
      last down to \<open>lim = max 0 (n - UTFMax)\<close>, stopping at the first byte that can
      start a rune; \<open>lim - 1\<close> (or 0) when there is none\<close>
  "lastRuneStart s =
     (let n = length s; b = (\<lambda>k. byte (s ! (n - k))) in
      if 2 \<le> n \<and> RuneStart (b 2) then n - 2
      else if 3 \<le> n \<and> RuneStart (b 3) then n - 3
      else if 4 \<le> n \<and> RuneStart (b 4) then n - 4
      else n - min n 5)"

definition DecodeLastRuneInString :: "string \<Rightarrow> nat \<times> nat" where
  "DecodeLastRuneInString s =
     (if s = [] then (RuneError, 0)
      else if byte (last s) < 0x80 then (byte (last s), 1)
      else (let start = lastRuneStart s;
                (r, size) = DecodeRuneInString (drop start s)
            in if start + size \<noteq> length s then (RuneError, 1) else (r, size)))"

text \<open>\<open>unicode.IsSpace\<close>: the code points with the White_Space property.\<close>

definition IsSpace :: "nat \<Rightarrow> bool" where
  "IsSpace r \<longleftrightarrow>
     inRange 0x09 0x0D r \<or> r = 0x20 \<or> r = 0x85 \<or> r = 0xA0 \<or> r = 0x1680
     \<or> inRange 0x2000 0x200A r \<or> r = 0x2028 \<or> r = 0x2029 \<or> r = 0x202F
     \<or> r = 0x205F \<or> r = 0x3000"

definition asciiSpace :: "char \<Rightarrow> bool" where
  "asciiSpace c \<longleftrightarrow> inRange 0x09 0x0D (byte c) \<or> byte c = 0x20"

lemma DecodeRuneInString_size:
  assumes "s \<noteq> []"
  shows "1 \<le> snd (DecodeRuneInString s) \<and> snd (DecodeRuneInString s) \<le> length s"
proof (cases s)
  case Nil
  with assms show ?thesis by simp
next
  case (Cons c cs)
  have "runeSize (byte c) \<in> {1, 2, 3, 4}"
    by (simp add: runeSize_def)
  then show ?thesis
    unfolding Cons DecodeRuneInString_def
    by (cases cs) (auto simp: Suc_le_eq)
qed

lemma DecodeLastRuneInString_size:
  "s \<noteq> [] \<Longrightarrow> 1 \<le> snd (DecodeLastRuneInString s)
     \<and> snd (DecodeLastRuneInString s) \<le> length s"
proof -
  assume ne: "s \<noteq> []"
  let ?st = "lastRuneStart s"
  have le: "?st < length s"
    using ne by (auto simp: lastRuneStart_def Let_def)
  then have "drop ?st s \<noteq> []" by simp
  then have "1 \<le> snd (DecodeRuneInString (drop ?st s))"
    using DecodeRuneInString_size by blast
  then show ?thesis
    using ne le by (auto simp: DecodeLastRuneInString_def Let_def split: prod.splits)
qed

text \<open>
  \<open>strings.TrimLeftFunc s unicode.IsSpace\<close> and \<open>strings.TrimRightFunc s
  unicode.IsSpace\<close>, rune by rune: runes are dropped while they are spaces.
  From the right, the string is cut after the last rune that is no space, as
  found by \<open>DecodeLastRuneInString\<close>.
\<close>

function TrimLeftFunc :: "string \<Rightarrow> string" where
  "TrimLeftFunc s =
     (if s = [] then []
      else if IsSpace (fst (DecodeRuneInString s))
        then TrimLeftFunc (drop (snd (DecodeRuneInString s)) s)
      else s)"
  by pat_completeness auto
termination
proof (relation "measure length")
  fix s :: string
  assume "s \<noteq> []"
  then show "(drop (snd (DecodeRuneInString s)) s, s) \<in> measure length"
    using DecodeRuneInString_size [of s] by simp
qed simp

declare TrimLeftFunc.simps [simp del]

function TrimRightFunc :: "string \<Rightarrow> string" where
  "TrimRightFunc s =
     (if s = [] then []
      else if IsSpace (fst (DecodeLastRuneInString s))
        then TrimRightFunc (take (length s - snd (DecodeLastRuneInString s)) s)
      else s)"
  by pat_completeness auto
termination
proof (relation "measure length")
  fix s :: string
  assume "s \<noteq> []"
  then show "(take (length s - snd (DecodeLastRuneInString s)) s, s) \<in> measure length"
    using DecodeLastRuneInString_size [of s] by (cases s) auto
qed simp

declare TrimRightFunc.simps [simp del]

text \<open>
  \<open>strings.TrimSpace\<close>: the ASCII fast path from the left, then from the right;
  the first byte \<open>\<ge> 0x80\<close> met on either side hands over to the rune-wise
  functions.
\<close>

function trimSpaceRight :: "string \<Rightarrow> string" where
  "trimSpaceRight s =
     (if s = [] then []
      else if 0x80 \<le> byte (last s) then TrimRightFunc s
      else if asciiSpace (last s) then trimSpaceRight (butlast s)
      else s)"
  by pat_completeness auto
termination
  by (relation "measure length") auto

declare trimSpaceRight.simps [simp del]

fun TrimSpace :: "string \<Rightarrow> string" where
  "TrimSpace [] = []"
| "TrimSpace (c # cs) =
     (if 0x80 \<le> byte c then TrimRightFunc (TrimLeftFunc (c # cs))
      else if asciiSpace c then TrimSpace cs
      else trimSpaceRight (c # cs))"

text \<open>
  \<open>strconv.Atoi\<close> on a 64-bit platform: an optional sign, then one or more
  decimal digits and nothing else, the value within the range of \<open>int\<close>.
  Any other string is an error (\<open>None\<close>); the scanner only tests the error
  for \<open>nil\<close>.
\<close>

definition isDigit :: "char \<Rightarrow> bool" where
  "isDigit c \<longleftrightarrow> inRange 0x30 0x39 (byte c)"

definition digitsValue :: "string \<Rightarrow> int" where
  "digitsValue ds = foldl (\<lambda>n ch. n * 10 + (int (byte ch) - 0x30)) 0 ds"

definition Atoi :: "string \<Rightarrow> int option" where
  "Atoi s =
     (let neg = (s \<noteq> [] \<and> hd s = CHR ''-'');
          ds = (if s \<noteq> [] \<and> (hd s = CHR ''-'' \<or> hd s = CHR ''+'') then tl s else s)
      in if ds = [] \<or> \<not> list_all isDigit ds then None
         else (let v = (if neg then - digitsValue ds else digitsValue ds)
               in if v < - (2 ^ 63) \<or> 2 ^ 63 - 1 < v then None else Some v))"

text \<open>The verb \<open>%d\<close> of \<open>fmt\<close> on an \<open>int\<close>: its decimal digits, with a minus sign if negative.\<close>

function showDigits :: "int \<Rightarrow> string" where
  \<comment> \<open>the digits of a number that is not negative\<close>
  "showDigits n =
     (if n < 10 then [char_of (0x30 + n)]
      else showDigits (n div 10) @ [char_of (0x30 + n mod 10)])"
  by pat_completeness auto
termination
  by (relation "measure nat") auto

declare showDigits.simps [simp del]

definition showInt :: "int \<Rightarrow> string" where
  "showInt i = (if i < 0 then CHR ''-'' # showDigits (- i) else showDigits i)"

text \<open>
  \<open>sort.Slice\<close> with the comparison \<open>scanResults[i].Port < scanResults[j].Port\<close>
  and \<open>sort.Ints\<close>. \<open>sort.Slice\<close> is not stable: all that is known of its
  result is that it is a rearrangement of the slice in which no element is
  followed by one that is less. It is therefore a relation between the slice
  before and after; \<open>sort_key\<close> is one function that satisfies it.
\<close>

definition sort_Slice :: "('a \<Rightarrow> int) \<Rightarrow> 'a list \<Rightarrow> 'a list \<Rightarrow> bool" where
  "sort_Slice key xs ys \<longleftrightarrow> mset ys = mset xs \<and> sorted (map key ys)"

subsection \<open>Data\<close>

record ScanResult =
  Port :: int
  Status :: string
  Service :: string
  Banner :: string
  Latency :: int
  Error :: string

record PortScanner =
  Target :: string
  Ports :: "int list"
  Concurrency :: int
  Timeout :: int          \<comment> \<open>a \<open>time.Duration\<close>, in nanoseconds\<close>
  Verbose :: bool

record ScanSummary =
  Target :: string
  TotalPorts :: int
  OpenPorts :: int
  ClosedPorts :: int
  Filtered :: int
  Duration :: int
  Results :: "ScanResult list"

text \<open>
  \<open>Timeout\<close> and \<open>Verbose\<close> are carried along and read by no function below:
  the timeout bounds how long the network may take to answer, and the verbose
  flag only adds printing.

  What the network answers to one probe. A Go \<open>error\<close> is seen by the scanner
  through \<open>err.Error()\<close>, the type assertion \<open>err.(net.Error)\<close> and, when that
  succeeds, \<open>Timeout()\<close>. A connection is seen through one \<open>Read\<close> into a
  buffer of 1024 bytes, after the bytes of an optional greeting were written:
  the chunk it delivers, or an error (a deadline that passed included), in
  which case the scanner ignores the byte count.
\<close>

datatype go_error =
  NetError bool string    \<comment> \<open>a \<open>net.Error\<close>: \<open>Timeout()\<close> and \<open>Error()\<close>\<close>
| OtherError string       \<comment> \<open>any other error: \<open>Error()\<close>\<close>

fun errorText :: "go_error \<Rightarrow> string" where
  "errorText (NetError timeout text) = text"
| "errorText (OtherError text) = text"

datatype read_outcome = ReadBytes string | ReadFailed

type_synonym conn = "string option \<Rightarrow> read_outcome"

datatype dial_outcome = Connected conn | DialFailed go_error

record attempt =
  dial :: dial_outcome    \<comment> \<open>what \<open>DialContext\<close> returned\<close>
  elapsed :: int          \<comment> \<open>\<open>time.Since(startTime).Milliseconds()\<close>\<close>

subsection \<open>Service names and banners\<close>

definition services :: "(int \<times> string) list" where
  "services =
     [(21, ''ftp''), (22, ''ssh''), (23, ''telnet''), (25, ''smtp''), (53, ''dns''),
      (80, ''http''), (110, ''pop3''), (143, ''imap''), (443, ''https''),
      (993, ''imaps''), (995, ''pop3s''), (3306, ''mysql''), (3389, ''rdp''),
      (5432, ''postgresql''), (5900, ''vnc''), (8080, ''http-alt''),
      (8443, ''https-alt'')]"

definition getServiceName :: "int \<Rightarrow> string" where
  "getServiceName port =
     (case map_of services port of
        Some service \<Rightarrow> service
      | None \<Rightarrow> ''unknown'')"

definition CR :: char where "CR = CHR 0x0D"
definition LF :: char where "LF = CHR 0x0A"
definition backslash :: char where "backslash = CHR 0x5C"

definition greeting :: "int \<Rightarrow> string option" where
  \<comment> \<open>the \<open>switch port\<close> of \<open>grabBanner\<close>: what is written before the read\<close>
  "greeting port =
     (if port = 21 then Some (''HELP'' @ [CR, LF])
      else if port = 22 then None
      else if port = 25 then Some (''EHLO test'' @ [CR, LF])
      else if port = 80 \<or> port = 8080
        then Some (''GET / HTTP/1.0'' @ [CR, LF] @ ''Host: test'' @ [CR, LF, CR, LF])
      else if port = 110 then Some (''USER test'' @ [CR, LF])
      else if port = 143 then Some (''A001 CAPABILITY'' @ [CR, LF])
      else None)"

definition grabBanner :: "conn \<Rightarrow> int \<Rightarrow> string" where
  "grabBanner conn port =
     (case conn (greeting port) of
        ReadFailed \<Rightarrow> []
      | ReadBytes chunk \<Rightarrow>
          (let banner = take 1024 chunk;
               banner = TrimSpace banner;
               banner = ReplaceAll banner [CR] [backslash, CHR ''r''];
               banner = ReplaceAll banner [LF] [backslash, CHR ''n'']
           in if length banner > 100 then take 100 banner @ ''...'' else banner))"

text \<open>
  The banner as the specification words it: the input trimmed of surrounding
  whitespace, each carriage return and each line feed replaced by a backslash
  and the letter \<open>r\<close> or \<open>n\<close>, then cut to its first 100 bytes with the marker
  \<open>...\<close> appended when it is longer. It is compared with \<open>grabBanner\<close> below.
\<close>

definition escapeBreak :: "char \<Rightarrow> string" where
  "escapeBreak ch =
     (if ch = CR then [backslash, CHR ''r'']
      else if ch = LF then [backslash, CHR ''n'']
      else [ch])"

definition displayedBanner :: "string \<Rightarrow> string" where
  "displayedBanner input =
     (let text = concat (map escapeBreak (TrimSpace input))
      in if 100 < length text then take 100 text @ ''...'' else text)"

subsection \<open>The prober\<close>

definition scanPort :: "attempt \<Rightarrow> int \<Rightarrow> ScanResult" where
  "scanPort a port =
     (let result = \<lparr>Port = port, Status = ''filtered'', Service = [], Banner = [],
                     Latency = elapsed a, Error = []\<rparr>
      in case dial a of
           DialFailed err \<Rightarrow>
             (let result =
                (case err of
                   NetError timeout text \<Rightarrow>
                     if timeout then result\<lparr>Status := ''filtered''\<rparr>
                     else if Contains text ''connection refused''
                       then result\<lparr>Status := ''closed''\<rparr>
                     else result\<lparr>Status := ''filtered''\<rparr>
                 | OtherError text \<Rightarrow> result\<lparr>Status := ''filtered''\<rparr>)
              in result\<lparr>Error := errorText err\<rparr>)
         | Connected conn \<Rightarrow>
             (let result = result\<lparr>Status := ''open'', Service := getServiceName port\<rparr>;
                  banner = grabBanner conn port
              in if banner \<noteq> [] then result\<lparr>Banner := banner\<rparr> else result))"

subsection \<open>The port set resolver\<close>

definition getCommonPorts :: "int list" where
  "getCommonPorts =
     [21, 22, 23, 25, 53, 80, 110, 143, 443, 993, 995,
      135, 139, 445, 993, 995, 1723, 3306, 3389, 5432, 5900,
      8080, 8443, 9200, 27017]"

definition uniqueSortedPorts :: "int list \<Rightarrow> int list" where
  \<comment> \<open>the keys of the map \<open>unique\<close>, each once, in the order \<open>sort.Ints\<close> leaves them\<close>
  "uniqueSortedPorts ports = sort (remdups ports)"

definition parsePart :: "string \<Rightarrow> string + int list" where
  \<comment> \<open>one turn of the loop of \<open>parsePorts\<close>: the error returned, or the ports appended\<close>
  "parsePart part0 =
     (let part = TrimSpace part0 in
      if Contains part ''-'' then
        (let rangeParts = Split part (CHR ''-'') in
         if length rangeParts \<noteq> 2 then Inl (''invalid port range: '' @ part)
         else (case Atoi (rangeParts ! 0) of
                 None \<Rightarrow> Inl (''invalid start port: '' @ rangeParts ! 0)
               | Some start \<Rightarrow>
                   (case Atoi (rangeParts ! 1) of
                      None \<Rightarrow> Inl (''invalid end port: '' @ rangeParts ! 1)
                    | Some stop \<Rightarrow>
                        if start < 1 \<or> stop > 65535 \<or> start > stop
                        then Inl (''invalid port range: '' @ showInt start @ ''-''
                                    @ showInt stop)
                        else Inr [start..stop])))
      else (case Atoi part of
              None \<Rightarrow> Inl (''invalid port: '' @ part)
            | Some port \<Rightarrow>
                if port < 1 \<or> port > 65535
                then Inl (''port out of range: '' @ showInt port)
                else Inr [port]))"

fun parseParts :: "string list \<Rightarrow> int list \<Rightarrow> string + int list" where
  "parseParts [] ports = Inr ports"
| "parseParts (part # parts) ports =
     (case parsePart part of
        Inl err \<Rightarrow> Inl err
      | Inr new \<Rightarrow> parseParts parts (ports @ new))"

definition parsePorts :: "string \<Rightarrow> string + int list" where
  "parsePorts portSpec =
     (if portSpec = ''common'' then Inr getCommonPorts
      else (case parseParts (Split portSpec (CHR '','')) [] of
              Inl err \<Rightarrow> Inl err
            | Inr ports \<Rightarrow> Inr (uniqueSortedPorts ports)))"

text \<open>
  A token as the specification words it: a literal integer that is a port
  (1..65535), or a range \<open>a-b\<close> with \<open>1 \<le> a \<le> b \<le> 65535\<close>. It is applied to the
  trimmed token and compared with \<open>parsePart\<close> below.
\<close>

definition wellFormedToken :: "string \<Rightarrow> bool" where
  "wellFormedToken t =
     (case Split t (CHR ''-'') of
        [p] \<Rightarrow> (case Atoi p of None \<Rightarrow> False | Some n \<Rightarrow> 1 \<le> n \<and> n \<le> 65535)
      | [a, b] \<Rightarrow>
          (case Atoi a of
             None \<Rightarrow> False
           | Some x \<Rightarrow>
               (case Atoi b of
                  None \<Rightarrow> False
                | Some y \<Rightarrow> 1 \<le> x \<and> x \<le> y \<and> y \<le> 65535))
      | _ \<Rightarrow> False)"

definition portsOf :: "string \<Rightarrow> int list" where
  \<comment> \<open>the ports one part contributes; none when it is rejected\<close>
  "portsOf part = (case parsePart part of Inl err \<Rightarrow> [] | Inr new \<Rightarrow> new)"

subsection \<open>The worker pool\<close>

text \<open>
  \<open>scanPorts\<close> starts \<open>Concurrency\<close> workers, one goroutine that sends the
  ports on the channel \<open>jobs\<close> and closes it, and one that closes the channel
  \<open>results\<close> once every worker has called \<open>wg.Done()\<close>; the calling goroutine
  appends what it receives from \<open>results\<close> to \<open>scanResults\<close> until that
  channel is closed and empty. The goroutines interleave freely, so the pool
  is a transition system over the state below, one rule per channel
  operation. Both channels are buffered with capacity \<open>len(ps.Ports)\<close>; a send
  on a full channel is not enabled.
\<close>

datatype worker =
  Receiving               \<comment> \<open>at \<open>for port := range jobs\<close>\<close>
| Probing int             \<comment> \<open>inside \<open>ps.scanPort(ipAddr, port)\<close>\<close>
| Sending ScanResult      \<comment> \<open>at \<open>results <- result\<close>\<close>
| Exited                  \<comment> \<open>after \<open>wg.Done()\<close>\<close>

record pool =
  unsent :: "int list"              \<comment> \<open>ports the sender has yet to send\<close>
  jobs :: "int list"                \<comment> \<open>the buffer of the channel \<open>jobs\<close>\<close>
  jobsClosed :: bool
  workers :: "worker list"
  results :: "ScanResult list"      \<comment> \<open>the buffer of the channel \<open>results\<close>\<close>
  resultsClosed :: bool
  scanResults :: "ScanResult list"  \<comment> \<open>the slice of the collecting loop\<close>
  probed :: "int list"              \<comment> \<open>history: the ports \<open>scanPort\<close> was called with\<close>

definition startPool :: "PortScanner \<Rightarrow> pool" where
  "startPool ps =
     \<lparr>unsent = Ports ps, jobs = [], jobsClosed = False,
      workers = replicate (nat (Concurrency ps)) Receiving,
      results = [], resultsClosed = False, scanResults = [], probed = []\<rparr>"

inductive poolStep :: "nat \<Rightarrow> pool \<Rightarrow> pool \<Rightarrow> bool" for cap :: nat where
  sendJob:
    "unsent s = port # rest \<Longrightarrow> length (jobs s) < cap \<Longrightarrow>
     poolStep cap s (s\<lparr>unsent := rest, jobs := jobs s @ [port]\<rparr>)"
| closeJobs:
    "unsent s = [] \<Longrightarrow> \<not> jobsClosed s \<Longrightarrow>
     poolStep cap s (s\<lparr>jobsClosed := True\<rparr>)"
| receiveJob:
    "i < length (workers s) \<Longrightarrow> workers s ! i = Receiving \<Longrightarrow> jobs s = port # rest \<Longrightarrow>
     poolStep cap s (s\<lparr>jobs := rest, workers := (workers s)[i := Probing port],
                        probed := probed s @ [port]\<rparr>)"
| probeDone:
    "i < length (workers s) \<Longrightarrow> workers s ! i = Probing port \<Longrightarrow>
     poolStep cap s (s\<lparr>workers := (workers s)[i := Sending (scanPort a port)]\<rparr>)"
| sendResult:
    "i < length (workers s) \<Longrightarrow> workers s ! i = Sending result \<Longrightarrow>
     length (results s) < cap \<Longrightarrow>
     poolStep cap s (s\<lparr>results := results s @ [result],
                        workers := (workers s)[i := Receiving]\<rparr>)"
| workerExit:
    "i < length (workers s) \<Longrightarrow> workers s ! i = Receiving \<Longrightarrow> jobs s = [] \<Longrightarrow>
     jobsClosed s \<Longrightarrow>
     poolStep cap s (s\<lparr>workers := (workers s)[i := Exited]\<rparr>)"
| closeResults:
    "list_all (\<lambda>w. w = Exited) (workers s) \<Longrightarrow> \<not> resultsClosed s \<Longrightarrow>
     poolStep cap s (s\<lparr>resultsClosed := True\<rparr>)"
| collect:
    "results s = result # rest \<Longrightarrow>
     poolStep cap s (s\<lparr>results := rest, scanResults := scanResults s @ [result]\<rparr>)"

definition poolRun :: "PortScanner \<Rightarrow> pool \<Rightarrow> bool" where
  \<comment> \<open>the states the pool of scanner \<open>ps\<close> can be in\<close>
  "poolRun ps s \<longleftrightarrow> (poolStep (length (Ports ps)))\<^sup>*\<^sup>* (startPool ps) s"

definition drained :: "pool \<Rightarrow> bool" where
  \<comment> \<open>the loop \<open>for result := range results\<close> ends: the channel is closed and empty\<close>
  "drained s \<longleftrightarrow> resultsClosed s \<and> results s = []"

definition inFlight :: "pool \<Rightarrow> nat" where
  \<comment> \<open>the number of probes that have started and not yet returned\<close>
  "inFlight s = length (filter (\<lambda>w. case w of Probing port \<Rightarrow> True | _ \<Rightarrow> False) (workers s))"

definition scanPorts :: "PortScanner \<Rightarrow> pool \<Rightarrow> ScanResult list \<Rightarrow> bool" where
  \<comment> \<open>\<open>scanPorts\<close> returns \<open>rs\<close>, having ended in the pool state \<open>s\<close>\<close>
  "scanPorts ps s rs \<longleftrightarrow>
     poolRun ps s \<and> drained s \<and> sort_Slice Port (scanResults s) rs"

subsection \<open>The scan and its summary\<close>

definition tally :: "ScanSummary \<Rightarrow> ScanResult \<Rightarrow> ScanSummary" where
  \<comment> \<open>the body of the statistics loop of \<open>Scan\<close>\<close>
  "tally summary result =
     (let summary = summary\<lparr>TotalPorts := TotalPorts summary + 1\<rparr>
      in if Status result = ''open'' then summary\<lparr>OpenPorts := OpenPorts summary + 1\<rparr>
         else if Status result = ''closed''
           then summary\<lparr>ClosedPorts := ClosedPorts summary + 1\<rparr>
         else if Status result = ''filtered''
           then summary\<lparr>Filtered := Filtered summary + 1\<rparr>
         else summary)"

definition summarize :: "string \<Rightarrow> int \<Rightarrow> ScanResult list \<Rightarrow> ScanSummary" where
  "summarize target duration rs =
     foldl tally \<lparr>Target = target, TotalPorts = 0, OpenPorts = 0, ClosedPorts = 0,
                   Filtered = 0, Duration = duration, Results = rs\<rparr> rs"

text \<open>
  \<open>Scan\<close>: \<open>resolveTarget\<close> is a lookup by the network, which fails or gives an
  address; after a failure no port is scanned. The second component of the
  outcome is the error or the summary, the first the history of the pool (the
  ports probed).
\<close>

inductive Scan :: "PortScanner \<Rightarrow> int list \<times> (string + ScanSummary) \<Rightarrow> bool" where
  resolveFailed:
    "Scan ps ([], Inl (''failed to resolve target: '' @ err))"
| scanned:
    "scanPorts ps s rs \<Longrightarrow>
     Scan ps (probed s, Inr (summarize (PortScanner.Target ps) duration rs))"

subsection \<open>The command\<close>

record flags =
  targetFlag :: string         \<comment> \<open>\<open>-t\<close>\<close>
  portsFlag :: string          \<comment> \<open>\<open>-p\<close>, default \<open>common\<close>\<close>
  concurrencyFlag :: int       \<comment> \<open>\<open>-c\<close>, default 100\<close>
  timeoutFlag :: int           \<comment> \<open>\<open>-timeout\<close>, in milliseconds, default 1000\<close>
  outputFlag :: string         \<comment> \<open>\<open>-o\<close>, default \<open>text\<close>\<close>
  verboseFlag :: bool          \<comment> \<open>\<open>-v\<close>\<close>
  helpFlag :: bool             \<comment> \<open>\<open>-h\<close>\<close>

datatype exit =
  Usage                         \<comment> \<open>\<open>-h\<close>: the usage text, status 0\<close>
| TargetRequired                \<comment> \<open>no target: the usage text, \<open>os.Exit(1)\<close>\<close>
| Fatal string                  \<comment> \<open>\<open>log.Fatalf\<close> with this message\<close>
| Printed string ScanSummary    \<comment> \<open>the summary was handed to \<open>outputResults\<close> in this format\<close>

text \<open>
  \<open>main\<close>, as a relation between the flags and a run: the ports that were
  probed during the run, and how it ended.
\<close>

inductive main :: "flags \<Rightarrow> int list \<times> exit \<Rightarrow> bool" where
  showUsage:
    "helpFlag f \<Longrightarrow> main f ([], Usage)"
| noTarget:
    "\<not> helpFlag f \<Longrightarrow> targetFlag f = [] \<Longrightarrow> main f ([], TargetRequired)"
| badPorts:
    "\<not> helpFlag f \<Longrightarrow> targetFlag f \<noteq> [] \<Longrightarrow>
     parsePorts (portsFlag f) = Inl err \<Longrightarrow>
     main f ([], Fatal (''Invalid port specification: '' @ err))"
| badFormat:
    "\<not> helpFlag f \<Longrightarrow> targetFlag f \<noteq> [] \<Longrightarrow>
     parsePorts (portsFlag f) = Inr portList \<Longrightarrow>
     outputFlag f \<notin> {''text'', ''json'', ''csv''} \<Longrightarrow>
     main f ([], Fatal (''Invalid output format: '' @ outputFlag f
                          @ '' (use text, json, or csv)''))"
| scanFailed:
    "\<not> helpFlag f \<Longrightarrow> targetFlag f \<noteq> [] \<Longrightarrow>
     parsePorts (portsFlag f) = Inr portList \<Longrightarrow>
     outputFlag f \<in> {''text'', ''json'', ''csv''} \<Longrightarrow>
     Scan \<lparr>PortScanner.Target = targetFlag f, Ports = portList,
           Concurrency = concurrencyFlag f, Timeout = timeoutFlag f * 1000000,
           Verbose = verboseFlag f\<rparr> (dialled, Inl err) \<Longrightarrow>
     main f (dialled, Fatal (''Scan failed: '' @ err))"
| scanPrinted:
    "\<not> helpFlag f \<Longrightarrow> targetFlag f \<noteq> [] \<Longrightarrow>
     parsePorts (portsFlag f) = Inr portList \<Longrightarrow>
     outputFlag f \<in> {''text'', ''json'', ''csv''} \<Longrightarrow>
     Scan \<lparr>PortScanner.Target = targetFlag f, Ports = portList,
           Concurrency = concurrencyFlag f, Timeout = timeoutFlag f * 1000000,
           Verbose = verboseFlag f\<rparr> (dialled, Inr summary) \<Longrightarrow>
     main f (dialled, Printed (outputFlag f) summary)"

subsection \<open>Bookkeeping for the pool\<close>

text \<open>
  Where each port of the scan is at a given moment: still with the sender, in
  the channel \<open>jobs\<close>, in the hands of a worker, or already a result (in the
  channel \<open>results\<close> or collected).
\<close>

fun holding :: "worker \<Rightarrow> int multiset" where
  "holding Receiving = {#}"
| "holding (Probing port) = {#port#}"
| "holding (Sending result) = {#Port result#}"
| "holding Exited = {#}"

definition inHand :: "worker list \<Rightarrow> int multiset" where
  "inHand ws = sum_list (map holding ws)"

definition reported :: "pool \<Rightarrow> int multiset" where
  "reported s = mset (map Port (results s)) + mset (map Port (scanResults s))"

definition accounted :: "pool \<Rightarrow> int multiset" where
  "accounted s = mset (unsent s) + mset (jobs s) + inHand (workers s) + reported s"

definition probeResult :: "ScanResult \<Rightarrow> bool" where
  \<comment> \<open>\<open>r\<close> is what \<open>scanPort\<close> returns for its port on some answer of the network\<close>
  "probeResult r \<longleftrightarrow> (\<exists>a. r = scanPort a (Port r))"

definition poolInv :: "PortScanner \<Rightarrow> pool \<Rightarrow> bool" where
  "poolInv ps s \<longleftrightarrow>
     length (workers s) = nat (Concurrency ps)
     \<and> accounted s = mset (Ports ps)
     \<and> mset (probed s) = inHand (workers s) + reported s
     \<and> (jobsClosed s \<longrightarrow> unsent s = [])
     \<and> (Exited \<in> set (workers s) \<longrightarrow> jobsClosed s \<and> jobs s = [])
     \<and> (resultsClosed s \<longrightarrow> list_all (\<lambda>w. w = Exited) (workers s))
     \<and> (\<forall>r. Sending r \<in> set (workers s) \<longrightarrow> probeResult r)
     \<and> (\<forall>r \<in> set (results s) \<union> set (scanResults s). probeResult r)"

text \<open>
  A measure that every step of the pool decreases: a port counts 6 while
  unsent, 5 in \<open>jobs\<close>, 2 in \<open>results\<close>; a worker counts 1 while receiving, 5 while
  probing, 4 while sending; each channel still open counts 1.
\<close>

fun workerWeight :: "worker \<Rightarrow> nat" where
  "workerWeight Receiving = 1"
| "workerWeight (Probing port) = 5"
| "workerWeight (Sending result) = 4"
| "workerWeight Exited = 0"

definition weight :: "pool \<Rightarrow> nat" where
  "weight s =
     6 * length (unsent s) + 5 * length (jobs s) + sum_list (map workerWeight (workers s))
     + 2 * length (results s) + (if jobsClosed s then 0 else 1)
     + (if resultsClosed s then 0 else 1)"

section \<open>Properties\<close>

subsection \<open>Facts about the prober\<close>

lemma scanPort_Connected:
  "dial a = Connected c \<Longrightarrow>
     scanPort a port = \<lparr>Port = port, Status = ''open'', Service = getServiceName port,
                        Banner = grabBanner c port, Latency = elapsed a, Error = []\<rparr>"
  by (simp add: scanPort_def Let_def)

lemma scanPort_DialFailed:
  "dial a = DialFailed err \<Longrightarrow>
     scanPort a port =
       \<lparr>Port = port,
        Status = (case err of
                    NetError timeout text \<Rightarrow>
                      if \<not> timeout \<and> Contains text ''connection refused''
                      then ''closed'' else ''filtered''
                  | OtherError text \<Rightarrow> ''filtered''),
        Service = [], Banner = [], Latency = elapsed a, Error = errorText err\<rparr>"
  by (cases err) (simp_all add: scanPort_def Let_def)

lemma scanPort_Port [simp]: "Port (scanPort a port) = port"
  by (cases "dial a") (simp_all add: scanPort_Connected scanPort_DialFailed)

lemma scanPort_Status_cases:
  "Status (scanPort a port) = ''open'' \<or> Status (scanPort a port) = ''closed''
     \<or> Status (scanPort a port) = ''filtered''"
proof (cases "dial a")
  case (Connected c)
  then show ?thesis by (simp add: scanPort_Connected)
next
  case (DialFailed err)
  then show ?thesis by (cases err) (simp_all add: scanPort_DialFailed)
qed

lemma scanPort_open_iff:
  "Status (scanPort a port) = ''open'' \<longleftrightarrow> (\<exists>c. dial a = Connected c)"
proof (cases "dial a")
  case (Connected c)
  then show ?thesis by (simp add: scanPort_Connected)
next
  case (DialFailed err)
  then show ?thesis by (cases err) (simp_all add: scanPort_DialFailed)
qed

lemma getServiceName_nonempty: "getServiceName port \<noteq> []"
proof (cases "map_of services port")
  case None
  then show ?thesis by (simp add: getServiceName_def)
next
  case (Some name)
  then have "(port, name) \<in> set services" by (rule map_of_SomeD)
  then have "name \<noteq> []" by (auto simp: services_def)
  with Some show ?thesis by (simp add: getServiceName_def)
qed

text \<open>
  Claim C10. An outcome whose status is \<open>open\<close> always carries a service name, and
  the name is not empty: for a port of the table \<open>services\<close>, which maps 17
  distinct ports, it is the name the table gives; for any other port it is
  \<open>unknown\<close>.
\<close>

theorem open_service_name:
  "Status (scanPort a port) = ''open'' \<longrightarrow>
     Service (scanPort a port) \<noteq> []
     \<and> (\<forall>name. (port, name) \<in> set services \<longrightarrow> Service (scanPort a port) = name)
     \<and> (port \<notin> fst ` set services \<longrightarrow> Service (scanPort a port) = ''unknown'')
     \<and> length services = 17 \<and> distinct (map fst services)"
proof
  assume "Status (scanPort a port) = ''open''"
  then obtain c where c: "dial a = Connected c"
    by (auto simp: scanPort_open_iff)
  then have svc: "Service (scanPort a port) = getServiceName port"
    by (simp add: scanPort_Connected)
  have d: "distinct (map fst services)" by (simp add: services_def)
  have mapped: "getServiceName port = name" if "(port, name) \<in> set services" for name
    using that d by (simp add: getServiceName_def)
  have unmapped: "getServiceName port = ''unknown''" if "port \<notin> fst ` set services"
  proof -
    from that have "map_of services port = None"
      by (simp add: map_of_eq_None_iff)
    then show ?thesis by (simp add: getServiceName_def)
  qed
  have "length services = 17" by (simp add: services_def)
  with svc d mapped unmapped getServiceName_nonempty [of port]
  show "Service (scanPort a port) \<noteq> []
     \<and> (\<forall>name. (port, name) \<in> set services \<longrightarrow> Service (scanPort a port) = name)
     \<and> (port \<notin> fst ` set services \<longrightarrow> Service (scanPort a port) = ''unknown'')
     \<and> length services = 17 \<and> distinct (map fst services)"
    by simp
qed

theorem open_service_name_witness:
  "Status (scanPort \<lparr>dial = Connected (\<lambda>g. ReadFailed), elapsed = 4\<rparr> 443) = ''open''
   \<and> Service (scanPort \<lparr>dial = Connected (\<lambda>g. ReadFailed), elapsed = 4\<rparr> 443) = ''https''
   \<and> Status (scanPort \<lparr>dial = Connected (\<lambda>g. ReadFailed), elapsed = 4\<rparr> 9200) = ''open''
   \<and> Service (scanPort \<lparr>dial = Connected (\<lambda>g. ReadFailed), elapsed = 4\<rparr> 9200) = ''unknown''"
  using open_service_name [of "\<lparr>dial = Connected (\<lambda>g. ReadFailed), elapsed = 4\<rparr>" 443]
    open_service_name [of "\<lparr>dial = Connected (\<lambda>g. ReadFailed), elapsed = 4\<rparr>" 9200]
  by (simp add: scanPort_Connected services_def)

text \<open>
  Claim C3. A completed connection is classified \<open>open\<close>. A failed dial is
  classified \<open>filtered\<close> when it is a timeout, \<open>closed\<close> when it is a refusal
  (a \<open>net.Error\<close> that is no timeout and whose text contains
  \<open>connection refused\<close>, the only refusal signal the prober reads), and
  \<open>filtered\<close> in every other case. No outcome is \<open>closed\<close> without that
  refusal, and every attempt yields one of the three classifications: the
  prober is a total function and has no error return.
\<close>

theorem scanPort_classification:
  "(dial a = Connected c \<longrightarrow> Status (scanPort a port) = ''open'')
   \<and> (dial a = DialFailed (NetError True text) \<longrightarrow> Status (scanPort a port) = ''filtered'')
   \<and> (dial a = DialFailed (NetError False text) \<and> Contains text ''connection refused''
        \<longrightarrow> Status (scanPort a port) = ''closed'')
   \<and> (dial a = DialFailed (NetError False text) \<and> \<not> Contains text ''connection refused''
        \<longrightarrow> Status (scanPort a port) = ''filtered'')
   \<and> (dial a = DialFailed (OtherError text) \<longrightarrow> Status (scanPort a port) = ''filtered'')
   \<and> (Status (scanPort a port) = ''closed''
        \<longrightarrow> (\<exists>refusal. dial a = DialFailed (NetError False refusal)
                       \<and> Contains refusal ''connection refused''))
   \<and> Status (scanPort a port) \<in> {''open'', ''closed'', ''filtered''}"
proof -
  have closed: "\<exists>refusal. dial a = DialFailed (NetError False refusal)
                  \<and> Contains refusal ''connection refused''"
    if "Status (scanPort a port) = ''closed''"
  proof (cases "dial a")
    case (Connected conn)
    with that show ?thesis by (simp add: scanPort_Connected)
  next
    case (DialFailed err)
    with that show ?thesis
      by (cases err) (auto simp: scanPort_DialFailed split: if_splits)
  qed
  have three: "Status (scanPort a port) \<in> {''open'', ''closed'', ''filtered''}"
    using scanPort_Status_cases [of a port] by blast
  show ?thesis
    using closed three by (simp add: scanPort_Connected scanPort_DialFailed)
qed

theorem scanPort_classification_witness:
  "Status (scanPort \<lparr>dial = Connected (\<lambda>g. ReadFailed), elapsed = 2\<rparr> 80) = ''open''
   \<and> Status (scanPort \<lparr>dial = DialFailed (NetError True ''i/o timeout''), elapsed = 1000\<rparr> 80)
       = ''filtered''
   \<and> Status (scanPort \<lparr>dial = DialFailed (NetError False ''connect: connection refused''),
                         elapsed = 0\<rparr> 80) = ''closed''
   \<and> Status (scanPort \<lparr>dial = DialFailed (NetError False ''connect: no route to host''),
                         elapsed = 0\<rparr> 80) = ''filtered''
   \<and> Status (scanPort \<lparr>dial = DialFailed (OtherError ''connection refused''),
                         elapsed = 0\<rparr> 80) = ''filtered''"
  using
    scanPort_classification [of "\<lparr>dial = Connected (\<lambda>g. ReadFailed), elapsed = 2\<rparr>"
      "\<lambda>g. ReadFailed" 80 "[]"]
    scanPort_classification [of "\<lparr>dial = DialFailed (NetError True ''i/o timeout''),
      elapsed = 1000\<rparr>" "\<lambda>g. ReadFailed" 80 "''i/o timeout''"]
    scanPort_classification [of "\<lparr>dial = DialFailed (NetError False
      ''connect: connection refused''), elapsed = 0\<rparr>" "\<lambda>g. ReadFailed" 80
      "''connect: connection refused''"]
    scanPort_classification [of "\<lparr>dial = DialFailed (NetError False
      ''connect: no route to host''), elapsed = 0\<rparr>" "\<lambda>g. ReadFailed" 80
      "''connect: no route to host''"]
    scanPort_classification [of "\<lparr>dial = DialFailed (OtherError ''connection refused''),
      elapsed = 0\<rparr>" "\<lambda>g. ReadFailed" 80 "''connection refused''"]
  by (simp add: HasPrefix_def)

subsection \<open>Banners\<close>

lemma grabBanner_nonempty:
  assumes "grabBanner c port \<noteq> []"
  shows "\<exists>chunk. c (greeting port) = ReadBytes chunk \<and> chunk \<noteq> []"
proof (cases "c (greeting port)")
  case ReadFailed
  with assms show ?thesis by (simp add: grabBanner_def)
next
  case (ReadBytes chunk)
  with assms have "chunk \<noteq> []"
    by (auto simp: grabBanner_def)
  with ReadBytes show ?thesis by simp
qed

text \<open>
  Claim C7. The banner of an outcome is non-empty only if the status is
  \<open>open\<close> and the read on the connection delivered bytes (a read that fails,
  its deadline passed or not, delivers none). Whatever the read does, the
  status of a completed connection is \<open>open\<close>; after a failed or an empty read
  the banner is empty.
\<close>

theorem banner_only_when_open:
  "(Banner (scanPort a port) \<noteq> [] \<longrightarrow>
      Status (scanPort a port) = ''open''
      \<and> (\<exists>c chunk. dial a = Connected c \<and> c (greeting port) = ReadBytes chunk
            \<and> chunk \<noteq> []))
   \<and> (dial a = Connected c \<longrightarrow> Status (scanPort a port) = ''open'')
   \<and> (dial a = Connected c \<and> (c (greeting port) = ReadFailed \<or> c (greeting port) = ReadBytes [])
        \<longrightarrow> Status (scanPort a port) = ''open'' \<and> Banner (scanPort a port) = [])"
proof -
  have present: "Status (scanPort a port) = ''open''
      \<and> (\<exists>c chunk. dial a = Connected c \<and> c (greeting port) = ReadBytes chunk \<and> chunk \<noteq> [])"
    if "Banner (scanPort a port) \<noteq> []"
  proof (cases "dial a")
    case (Connected conn)
    with that have "grabBanner conn port \<noteq> []"
      by (simp add: scanPort_Connected)
    then obtain chunk where "conn (greeting port) = ReadBytes chunk" "chunk \<noteq> []"
      using grabBanner_nonempty by blast
    with Connected show ?thesis by (simp add: scanPort_Connected)
  next
    case (DialFailed err)
    with that show ?thesis by (simp add: scanPort_DialFailed)
  qed
  have absent: "Status (scanPort a port) = ''open'' \<and> Banner (scanPort a port) = []"
    if "dial a = Connected c" "c (greeting port) = ReadFailed \<or> c (greeting port) = ReadBytes []"
    using that by (auto simp: scanPort_Connected grabBanner_def)
  show ?thesis
    using present absent by (simp add: scanPort_Connected)
qed

theorem banner_only_when_open_witness:
  "Banner (scanPort \<lparr>dial = Connected (\<lambda>g. ReadBytes ''SSH-2.0''), elapsed = 3\<rparr> 22) = ''SSH-2.0''
   \<and> Status (scanPort \<lparr>dial = Connected (\<lambda>g. ReadBytes ''SSH-2.0''), elapsed = 3\<rparr> 22) = ''open''
   \<and> Status (scanPort \<lparr>dial = Connected (\<lambda>g. ReadFailed), elapsed = 3\<rparr> 22) = ''open''
   \<and> Banner (scanPort \<lparr>dial = Connected (\<lambda>g. ReadFailed), elapsed = 3\<rparr> 22) = []"
proof -
  have b: "grabBanner (\<lambda>g. ReadBytes ''SSH-2.0'') 22 = ''SSH-2.0''"
    by code_simp
  show ?thesis
    using
      banner_only_when_open [of "\<lparr>dial = Connected (\<lambda>g. ReadBytes ''SSH-2.0''), elapsed = 3\<rparr>"
        22 "\<lambda>g. ReadBytes ''SSH-2.0''"]
      banner_only_when_open [of "\<lparr>dial = Connected (\<lambda>g. ReadFailed), elapsed = 3\<rparr>"
        22 "\<lambda>g. ReadFailed"]
    by (simp add: scanPort_Connected b)
qed

lemma ReplaceAll_byte:
  "ReplaceAll s [old] new = concat (map (\<lambda>ch. if ch = old then new else [ch]) s)"
  by (induction s) (simp_all add: HasPrefix_def)

lemma escape_both:
  "ReplaceAll (ReplaceAll s [CR] [backslash, CHR ''r'']) [LF] [backslash, CHR ''n'']
     = concat (map escapeBreak s)"
  by (induction s)
    (simp_all add: ReplaceAll_byte escapeBreak_def CR_def LF_def backslash_def)

text \<open>
  Claim C6. Whatever bytes the read delivers, the banner is the text the
  specification describes, computed from the (at most 1024) bytes read:
  trimmed, line breaks made visible, cut after 100 bytes with the marker
  \<open>...\<close>. Lengths count bytes, as \<open>len\<close> and slicing do in the source. A read
  that fails, by an error or by its deadline, gives the empty banner; there is
  no error result.
\<close>

theorem grabBanner_displayed:
  "grabBanner c port =
     (case c (greeting port) of
        ReadFailed \<Rightarrow> []
      | ReadBytes chunk \<Rightarrow> displayedBanner (take 1024 chunk))"
  by (simp add: grabBanner_def displayedBanner_def escape_both Let_def
      split: read_outcome.split)

theorem grabBanner_displayed_witness:
  "grabBanner (\<lambda>g. ReadBytes ('' 220 ready'' @ [CR, LF] @ ''ok'' @ [CR, LF])) 21
     = ''220 ready'' @ [backslash, CHR ''r'', backslash, CHR ''n''] @ ''ok''
   \<and> grabBanner (\<lambda>g. ReadBytes (replicate 150 (CHR ''a''))) 21
     = replicate 100 (CHR ''a'') @ ''...''
   \<and> grabBanner (\<lambda>g. ReadFailed) 21 = []"
proof -
  have 1: "displayedBanner (take 1024 ('' 220 ready'' @ [CR, LF] @ ''ok'' @ [CR, LF]))
     = ''220 ready'' @ [backslash, CHR ''r'', backslash, CHR ''n''] @ ''ok''"
    by code_simp
  have 2: "displayedBanner (take 1024 (replicate 150 (CHR ''a'')))
     = replicate 100 (CHR ''a'') @ ''...''"
    by code_simp
  show ?thesis
    using
      grabBanner_displayed [of "\<lambda>g. ReadBytes ('' 220 ready'' @ [CR, LF] @ ''ok'' @ [CR, LF])" 21]
      grabBanner_displayed [of "\<lambda>g. ReadBytes (replicate 150 (CHR ''a''))" 21]
      grabBanner_displayed [of "\<lambda>g. ReadFailed" 21]
    by (simp only: 1 2 read_outcome.case simp_thms)
qed

subsection \<open>Invariants of the pool\<close>

lemma inHand_update:
  "i < length ws \<Longrightarrow> inHand (ws[i := w]) + holding (ws ! i) = inHand ws + holding w"
proof (induction ws arbitrary: i)
  case Nil
  then show ?case by simp
next
  case (Cons v ws)
  show ?case
  proof (cases i)
    case 0
    then show ?thesis by (simp add: inHand_def)
  next
    case (Suc j)
    with Cons.prems have "j < length ws" by simp
    from Cons.IH [OF this] Suc show ?thesis
      by (simp add: inHand_def add.assoc)
  qed
qed

lemma inHand_replace:
  "i < length ws \<Longrightarrow> holding (ws ! i) = {#} \<Longrightarrow> inHand (ws[i := w]) = inHand ws + holding w"
  using inHand_update [of i ws w] by simp

lemma inHand_release:
  "i < length ws \<Longrightarrow> holding w = {#} \<Longrightarrow> inHand (ws[i := w]) + holding (ws ! i) = inHand ws"
  using inHand_update [of i ws w] by simp

lemma inHand_same:
  "i < length ws \<Longrightarrow> holding w = holding (ws ! i) \<Longrightarrow> inHand (ws[i := w]) = inHand ws"
  using inHand_update [of i ws w] by simp

lemma weight_update:
  "i < length ws \<Longrightarrow>
     sum_list (map workerWeight (ws[i := w])) + workerWeight (ws ! i)
       = sum_list (map workerWeight ws) + workerWeight w"
proof (induction ws arbitrary: i)
  case Nil
  then show ?case by simp
next
  case (Cons v ws)
  show ?case
  proof (cases i)
    case 0
    then show ?thesis by simp
  next
    case (Suc j)
    with Cons.prems have "j < length ws" by simp
    from Cons.IH [OF this] Suc show ?thesis by simp
  qed
qed

lemma poolStep_weight:
  "poolStep cap s s' \<Longrightarrow> weight s' < weight s"
proof (induction rule: poolStep.induct)
  case (receiveJob i s port rest)
  then show ?case
    using weight_update [of i "workers s" "Probing port"] by (simp add: weight_def)
next
  case (probeDone i s port a)
  then show ?case
    using weight_update [of i "workers s" "Sending (scanPort a port)"]
    by (simp add: weight_def)
next
  case (sendResult i s result)
  then show ?case
    using weight_update [of i "workers s" Receiving] by (simp add: weight_def)
next
  case (workerExit i s)
  then show ?case
    using weight_update [of i "workers s" Exited] by (simp add: weight_def)
qed (simp_all add: weight_def)

lemma in_set_updateD:
  "v \<in> set (ws[i := w]) \<Longrightarrow> v = w \<or> v \<in> set ws"
  using set_update_subset_insert [of ws i w] by auto

lemma inHand_replicate_Receiving: "inHand (replicate n Receiving) = {#}"
  by (induction n) (simp_all add: inHand_def)

lemma poolInv_start: "poolInv ps (startPool ps)"
  by (simp add: poolInv_def startPool_def accounted_def reported_def
      inHand_replicate_Receiving list_all_iff)

lemma busy_unclosed:
  assumes "poolInv ps s" and "i < length (workers s)" and "workers s ! i \<noteq> Exited"
  shows "\<not> resultsClosed s"
proof
  assume "resultsClosed s"
  with assms(1) have "\<forall>w \<in> set (workers s). w = Exited"
    by (simp add: poolInv_def list_all_iff)
  moreover from assms(2) have "workers s ! i \<in> set (workers s)" by simp
  ultimately show False using assms(3) by blast
qed

lemma poolInv_step:
  assumes "poolStep cap s s'" and "poolInv ps s"
  shows "poolInv ps s'"
  using assms
proof (induction rule: poolStep.induct)
  case (sendJob s port rest)
  then show ?case
    by (auto simp: poolInv_def accounted_def reported_def)
next
  case (closeJobs s)
  then show ?case
    by (auto simp: poolInv_def accounted_def reported_def)
next
  case (receiveJob i s port rest)
  then have h: "inHand ((workers s)[i := Probing port]) = inHand (workers s) + {#port#}"
    using inHand_replace [of i "workers s" "Probing port"] by simp
  from receiveJob have noExit: "Exited \<notin> set (workers s)"
    by (auto simp: poolInv_def)
  from receiveJob have unclosed: "\<not> resultsClosed s"
    using busy_unclosed [of ps s i] by simp
  from receiveJob h noExit unclosed show ?case
    by (auto simp: poolInv_def accounted_def reported_def dest!: in_set_updateD)
next
  case (probeDone i s port a)
  then have h: "inHand ((workers s)[i := Sending (scanPort a port)]) = inHand (workers s)"
    using inHand_same [of i "workers s" "Sending (scanPort a port)"] by simp
  have valid: "probeResult (scanPort a port)"
    unfolding probeResult_def by (rule exI [of _ a]) simp
  from probeDone have unclosed: "\<not> resultsClosed s"
    using busy_unclosed [of ps s i] by simp
  from probeDone h valid unclosed show ?case
    by (auto simp: poolInv_def accounted_def reported_def dest!: in_set_updateD)
next
  case (sendResult i s result)
  then have h: "inHand ((workers s)[i := Receiving]) + {#Port result#} = inHand (workers s)"
    using inHand_release [of i "workers s" Receiving] by simp
  from sendResult have "Sending result \<in> set (workers s)"
    by (metis nth_mem)
  with sendResult have valid: "probeResult result"
    by (simp add: poolInv_def)
  from sendResult have unclosed: "\<not> resultsClosed s"
    using busy_unclosed [of ps s i] by simp
  from sendResult valid unclosed h [symmetric] show ?case
    by (auto simp: poolInv_def accounted_def reported_def dest!: in_set_updateD)
next
  case (workerExit i s)
  then have h: "inHand ((workers s)[i := Exited]) = inHand (workers s)"
    using inHand_same [of i "workers s" Exited] by simp
  from workerExit have unclosed: "\<not> resultsClosed s"
    using busy_unclosed [of ps s i] by simp
  from workerExit h unclosed show ?case
    by (auto simp: poolInv_def accounted_def reported_def dest!: in_set_updateD)
next
  case (closeResults s)
  then show ?case
    by (auto simp: poolInv_def accounted_def reported_def)
next
  case (collect s result rest)
  then show ?case
    by (auto simp: poolInv_def accounted_def reported_def)
qed

lemma poolRun_poolInv:
  assumes "poolRun ps s"
  shows "poolInv ps s"
  using assms unfolding poolRun_def
  by (induction rule: rtranclp_induct) (auto intro: poolInv_start poolInv_step)

lemma inHand_all_Exited:
  "\<forall>w \<in> set ws. w = Exited \<Longrightarrow> inHand ws = {#}"
  by (induction ws) (simp_all add: inHand_def)

lemma drained_complete:
  assumes inv: "poolInv ps s" and d: "drained s" and c: "0 < Concurrency ps"
  shows "unsent s = []" and "jobs s = []" and "inHand (workers s) = {#}"
    and "mset (map Port (scanResults s)) = mset (Ports ps)"
    and "mset (probed s) = mset (Ports ps)"
proof -
  from inv d have all: "\<forall>w \<in> set (workers s). w = Exited"
    by (simp add: poolInv_def drained_def list_all_iff)
  from inv c have "workers s \<noteq> []"
    by (auto simp: poolInv_def)
  then obtain w where "w \<in> set (workers s)"
    by (cases "workers s") auto
  with all have "Exited \<in> set (workers s)" by auto
  with inv have closed: "jobsClosed s" and j: "jobs s = []"
    by (simp_all add: poolInv_def)
  from inv closed have u: "unsent s = []"
    by (simp add: poolInv_def)
  from all have h: "inHand (workers s) = {#}"
    by (rule inHand_all_Exited)
  from d have r: "results s = []"
    by (simp add: drained_def)
  from inv have "accounted s = mset (Ports ps)"
    by (simp add: poolInv_def)
  with u j h r have m: "mset (map Port (scanResults s)) = mset (Ports ps)"
    by (simp add: accounted_def reported_def)
  from inv have "mset (probed s) = inHand (workers s) + reported s"
    by (simp add: poolInv_def)
  with h r m have p: "mset (probed s) = mset (Ports ps)"
    by (simp add: reported_def)
  from u j h m p show "unsent s = []" and "jobs s = []" and "inHand (workers s) = {#}"
    and "mset (map Port (scanResults s)) = mset (Ports ps)"
    and "mset (probed s) = mset (Ports ps)"
    by simp_all
qed

lemma inFlight_le: "inFlight s \<le> length (workers s)"
  by (simp add: inFlight_def)

lemma probed_subset:
  assumes "poolInv ps s"
  shows "mset (probed s) \<subseteq># mset (Ports ps)"
proof -
  from assms have "mset (Ports ps) = mset (unsent s) + mset (jobs s) + mset (probed s)"
    by (simp add: poolInv_def accounted_def add.assoc)
  then show ?thesis by simp
qed

lemma size_inHand: "size (inHand ws) \<le> length ws"
proof (induction ws)
  case Nil
  then show ?case by (simp add: inHand_def)
next
  case (Cons w ws)
  then show ?case by (cases w) (simp_all add: inHand_def)
qed

lemma size_inHand_Cons: "size (inHand (w # ws)) = size (holding w) + size (inHand ws)"
  by (simp add: inHand_def)

lemma Sending_in_inHand:
  "Sending r \<in> set ws \<Longrightarrow> 1 \<le> size (inHand ws)"
proof (induction ws)
  case Nil
  then show ?case by simp
next
  case (Cons v ws)
  show ?case
  proof (cases "v = Sending r")
    case True
    then show ?thesis by (simp add: size_inHand_Cons)
  next
    case False
    with Cons.prems have "Sending r \<in> set ws" by simp
    then have "1 \<le> size (inHand ws)" by (rule Cons.IH)
    then show ?thesis by (simp add: size_inHand_Cons)
  qed
qed

lemma room_in_results:
  assumes inv: "poolInv ps s" and w: "Sending r \<in> set (workers s)"
  shows "length (results s) < length (Ports ps)"
proof -
  from w have "1 \<le> size (inHand (workers s))"
    by (rule Sending_in_inHand)
  moreover from inv have "size (accounted s) = length (Ports ps)"
    by (simp add: poolInv_def)
  ultimately show ?thesis
    by (simp add: accounted_def reported_def)
qed

lemma room_in_jobs:
  assumes inv: "poolInv ps s" and u: "unsent s = port # rest"
  shows "length (jobs s) < length (Ports ps)"
proof -
  from inv have "size (accounted s) = length (Ports ps)"
    by (simp add: poolInv_def)
  with u show ?thesis
    by (simp add: accounted_def)
qed

lemma pool_progress:
  assumes inv: "poolInv ps s" and nd: "\<not> drained s"
  shows "\<exists>s'. poolStep (length (Ports ps)) s s'"
proof (cases "results s")
  case (Cons r rest)
  then show ?thesis by (blast intro: collect)
next
  case Nil
  with nd have unclosed: "\<not> resultsClosed s"
    by (simp add: drained_def)
  show ?thesis
  proof (cases "list_all (\<lambda>w. w = Exited) (workers s)")
    case True
    with unclosed show ?thesis by (blast intro: closeResults)
  next
    case False
    then obtain w where w: "w \<in> set (workers s)" "w \<noteq> Exited"
      by (auto simp: list_all_iff)
    then obtain i where i: "i < length (workers s)" "workers s ! i = w"
      by (auto simp: in_set_conv_nth)
    show ?thesis
    proof (cases w)
      case Receiving
      show ?thesis
      proof (cases "jobs s")
        case (Cons port rest)
        with i Receiving show ?thesis by (blast intro: receiveJob)
      next
        case Nil
        show ?thesis
        proof (cases "jobsClosed s")
          case True
          with i Receiving Nil show ?thesis by (blast intro: workerExit)
        next
          case False
          show ?thesis
          proof (cases "unsent s")
            case Nil
            with False show ?thesis by (blast intro: closeJobs)
          next
            case (Cons port rest)
            with inv show ?thesis
              using room_in_jobs by (blast intro: sendJob)
          qed
        qed
      qed
    next
      case (Probing port)
      with i show ?thesis by (blast intro: probeDone)
    next
      case (Sending r)
      with w inv have "length (results s) < length (Ports ps)"
        using room_in_results by blast
      with i Sending show ?thesis by (blast intro: sendResult)
    next
      case Exited
      with w show ?thesis by simp
    qed
  qed
qed

lemma pool_finishes_from:
  assumes "poolInv ps s"
  shows "\<exists>t. (poolStep (length (Ports ps)))\<^sup>*\<^sup>* s t \<and> drained t"
  using assms
proof (induction "weight s" arbitrary: s rule: less_induct)
  case less
  show ?case
  proof (cases "drained s")
    case True
    then show ?thesis by blast
  next
    case False
    with less.prems obtain s' where step: "poolStep (length (Ports ps)) s s'"
      using pool_progress by blast
    then have "weight s' < weight s" by (rule poolStep_weight)
    moreover from step less.prems have "poolInv ps s'" by (rule poolInv_step)
    ultimately obtain t where "(poolStep (length (Ports ps)))\<^sup>*\<^sup>* s' t" "drained t"
      using less.hyps by blast
    with step show ?thesis
      by (blast intro: converse_rtranclp_into_rtranclp)
  qed
qed

lemma pool_finishes: "\<exists>t. poolRun ps t \<and> drained t"
  using pool_finishes_from [OF poolInv_start, of ps] by (auto simp: poolRun_def)

subsection \<open>A pool without workers\<close>

lemma pool_without_workers:
  assumes "poolRun ps s" and "Concurrency ps \<le> 0"
  shows "workers s = [] \<and> probed s = [] \<and> results s = [] \<and> scanResults s = []"
  using assms unfolding poolRun_def
proof (induction rule: rtranclp_induct)
  case base
  then show ?case by (simp add: startPool_def)
next
  case (step s s')
  from step.hyps(2) step.IH [OF step.prems] show ?case
    by (induction rule: poolStep.induct) simp_all
qed

subsection \<open>The aggregator\<close>

lemma sort_Slice_exists: "sort_Slice key xs (sort_key key xs)"
  by (simp add: sort_Slice_def)


subsection \<open>The summary\<close>

lemma tally_kept:
  "Results (tally s r) = Results s" "Target (tally s r) = Target s"
  "Duration (tally s r) = Duration s" "TotalPorts (tally s r) = TotalPorts s + 1"
  by (simp_all add: tally_def Let_def)

lemma tally_counts:
  assumes "Status r = ''open'' \<or> Status r = ''closed'' \<or> Status r = ''filtered''"
  shows "OpenPorts (tally s r) + ClosedPorts (tally s r) + Filtered (tally s r)
      = OpenPorts s + ClosedPorts s + Filtered s + 1"
  using assms by (auto simp: tally_def Let_def)

lemma foldl_tally_kept:
  "Results (foldl tally s rs) = Results s \<and> Target (foldl tally s rs) = Target s
   \<and> Duration (foldl tally s rs) = Duration s
   \<and> TotalPorts (foldl tally s rs) = TotalPorts s + int (length rs)"
  by (induction rs arbitrary: s) (simp_all add: tally_kept)

lemma foldl_tally_counts:
  assumes "\<forall>r \<in> set rs. Status r = ''open'' \<or> Status r = ''closed'' \<or> Status r = ''filtered''"
  shows "OpenPorts (foldl tally s rs) + ClosedPorts (foldl tally s rs)
      + Filtered (foldl tally s rs)
      = OpenPorts s + ClosedPorts s + Filtered s + int (length rs)"
  using assms
proof (induction rs arbitrary: s)
  case Nil
  then show ?case by simp
next
  case (Cons r rs)
  then have "Status r = ''open'' \<or> Status r = ''closed'' \<or> Status r = ''filtered''"
    by simp
  from tally_counts [OF this, of s] Cons.IH [of "tally s r"] Cons.prems
  show ?case by simp
qed

lemma probeResult_Status:
  assumes "probeResult r"
  shows "Status r = ''open'' \<or> Status r = ''closed'' \<or> Status r = ''filtered''"
proof -
  from assms obtain a where "r = scanPort a (Port r)"
    by (auto simp: probeResult_def)
  with scanPort_Status_cases [of a "Port r"] show ?thesis by simp
qed

lemma summarize_totals:
  "Results (summarize t d rs) = rs" "Target (summarize t d rs) = t"
  "Duration (summarize t d rs) = d" "TotalPorts (summarize t d rs) = int (length rs)"
  using foldl_tally_kept [of _ rs] by (simp_all add: summarize_def)

lemma summarize_counts:
  assumes "\<forall>r \<in> set rs. probeResult r"
  shows "OpenPorts (summarize t d rs) + ClosedPorts (summarize t d rs)
      + Filtered (summarize t d rs) = int (length rs)"
proof -
  from assms
  have "\<forall>r \<in> set rs. Status r = ''open'' \<or> Status r = ''closed'' \<or> Status r = ''filtered''"
    using probeResult_Status by blast
  from foldl_tally_counts [OF this] show ?thesis
    by (simp add: summarize_def)
qed

lemma scanPorts_results:
  assumes "scanPorts ps s rs"
  shows "mset rs = mset (scanResults s)" and "sorted (map Port rs)"
    and "\<forall>r \<in> set rs. probeResult r"
proof -
  from assms have run: "poolRun ps s" and srt: "sort_Slice Port (scanResults s) rs"
    by (simp_all add: scanPorts_def)
  from srt show m: "mset rs = mset (scanResults s)" and "sorted (map Port rs)"
    by (simp_all add: sort_Slice_def)
  from m have "set rs = set (scanResults s)"
    by (metis set_mset_mset)
  moreover from run have "\<forall>r \<in> set (scanResults s). probeResult r"
    using poolRun_poolInv by (auto simp: poolInv_def)
  ultimately show "\<forall>r \<in> set rs. probeResult r" by simp
qed

lemma Scan_summary:
  assumes "Scan ps (dialled, Inr summary)"
  shows "TotalPorts summary = int (length (Results summary))"
    and "TotalPorts summary = OpenPorts summary + ClosedPorts summary + Filtered summary"
    and "sorted (map Port (Results summary))"
    and "0 < Concurrency ps \<Longrightarrow> mset (map Port (Results summary)) = mset (Ports ps)"
    and "0 < Concurrency ps \<Longrightarrow> mset dialled = mset (Ports ps)"
proof -
  from assms obtain s rs d where sp: "scanPorts ps s rs"
    and sm: "summary = summarize (PortScanner.Target ps) d rs" and dl: "dialled = probed s"
    by (auto elim: Scan.cases)
  note res = scanPorts_results [OF sp]
  from sm show "TotalPorts summary = int (length (Results summary))"
    by (simp add: summarize_totals)
  from sm res(3) show "TotalPorts summary
      = OpenPorts summary + ClosedPorts summary + Filtered summary"
    by (simp add: summarize_totals summarize_counts)
  from sm res(2) show "sorted (map Port (Results summary))"
    by (simp add: summarize_totals)
  from sp have run: "poolRun ps s" and dr: "drained s"
    by (simp_all add: scanPorts_def)
  show "mset (map Port (Results summary)) = mset (Ports ps)" if c: "0 < Concurrency ps"
  proof -
    from res(1) have "mset (map Port rs) = mset (map Port (scanResults s))"
      by simp
    with drained_complete(4) [OF poolRun_poolInv [OF run] dr c] sm show ?thesis
      by (simp add: summarize_totals)
  qed
  show "mset dialled = mset (Ports ps)" if c: "0 < Concurrency ps"
    using drained_complete(5) [OF poolRun_poolInv [OF run] dr c] dl by simp
qed

lemma Scan_returns:
  "\<exists>dialled summary. Scan ps (dialled, Inr summary)"
proof -
  obtain s where "poolRun ps s" "drained s"
    using pool_finishes by blast
  then have "scanPorts ps s (sort_key Port (scanResults s))"
    by (simp add: scanPorts_def sort_Slice_exists)
  then show ?thesis
    by (blast intro: scanned)
qed

subsection \<open>The resolver\<close>

lemma Split_not_Nil: "Split s sep \<noteq> []"
  by (induction s) (auto split: list.splits)

lemma Split_single:
  "(\<exists>p. Split s sep = [p]) \<longleftrightarrow> sep \<notin> set s"
proof (induction s)
  case Nil
  then show ?case by simp
next
  case (Cons c s)
  show ?case
  proof (cases "c = sep")
    case True
    then show ?thesis using Split_not_Nil [of s sep] by simp
  next
    case False
    then show ?thesis using Cons Split_not_Nil [of s sep]
      by (cases "Split s sep") auto
  qed
qed

lemma Split_single_self: "sep \<notin> set s \<Longrightarrow> Split s sep = [s]"
  by (induction s) (auto split: list.splits)

lemma Contains_byte: "Contains s [c] \<longleftrightarrow> c \<in> set s"
  by (induction s) (auto simp: HasPrefix_def)

lemma parsePart_wellFormed:
  "(\<exists>new. parsePart part = Inr new) \<longleftrightarrow> wellFormedToken (TrimSpace part)"
proof (cases "CHR ''-'' \<in> set (TrimSpace part)")
  case False
  then show ?thesis
    by (simp add: parsePart_def wellFormedToken_def Contains_byte Split_single_self Let_def
        split: option.splits)
next
  case True
  then have "\<nexists>p. Split (TrimSpace part) (CHR ''-'') = [p]"
    by (simp add: Split_single)
  then obtain a b rest where s: "Split (TrimSpace part) (CHR ''-'') = a # b # rest"
    using Split_not_Nil [of "TrimSpace part" "CHR ''-''"]
    by (cases "Split (TrimSpace part) (CHR ''-'')" rule: list.exhaust)
      (auto simp: neq_Nil_conv)
  show ?thesis
  proof (cases rest)
    case Nil
    with s True show ?thesis
      by (auto simp: parsePart_def wellFormedToken_def Contains_byte Let_def
          split: option.splits)
  next
    case (Cons c cs)
    with s True show ?thesis
      by (simp add: parsePart_def wellFormedToken_def Contains_byte Let_def)
  qed
qed

lemma parsePart_ports:
  assumes "parsePart part = Inr new"
  shows "new \<noteq> [] \<and> (\<forall>p \<in> set new. 1 \<le> p \<and> p \<le> 65535)"
  using assms
  by (auto simp: parsePart_def Let_def split: if_splits option.splits)

lemma parseParts_Inr:
  assumes "\<forall>part \<in> set parts. \<exists>new. parsePart part = Inr new"
  shows "parseParts parts acc = Inr (acc @ concat (map portsOf parts))"
  using assms
proof (induction parts arbitrary: acc)
  case Nil
  then show ?case by simp
next
  case (Cons part parts)
  then obtain new where "parsePart part = Inr new" by auto
  with Cons show ?case by (simp add: portsOf_def)
qed

lemma parseParts_Inl:
  assumes "\<forall>part \<in> set pre. \<exists>new. parsePart part = Inr new"
    and "parsePart bad = Inl err"
  shows "parseParts (pre @ bad # post) acc = Inl err"
  using assms
proof (induction pre arbitrary: acc)
  case Nil
  then show ?case by simp
next
  case (Cons part pre)
  then obtain new where "parsePart part = Inr new" by auto
  with Cons show ?case by simp
qed

lemma first_rejected:
  assumes "\<exists>part \<in> set parts. \<not> P part"
  shows "\<exists>pre bad post. parts = pre @ bad # post \<and> (\<forall>q \<in> set pre. P q) \<and> \<not> P bad"
  using assms
proof (induction parts)
  case Nil
  then show ?case by simp
next
  case (Cons part parts)
  show ?case
  proof (cases "P part")
    case False
    then have "part # parts = [] @ part # parts \<and> (\<forall>q \<in> set []. P q) \<and> \<not> P part"
      by simp
    then show ?thesis by blast
  next
    case True
    with Cons.prems have "\<exists>q \<in> set parts. \<not> P q" by auto
    from Cons.IH [OF this] obtain pre bad post
      where "parts = pre @ bad # post" "\<forall>q \<in> set pre. P q" "\<not> P bad"
      by blast
    with True have "part # parts = (part # pre) @ bad # post
        \<and> (\<forall>q \<in> set (part # pre). P q) \<and> \<not> P bad"
      by simp
    then show ?thesis by blast
  qed
qed

lemma parseParts_success:
  assumes "parseParts parts acc = Inr ports"
  shows "\<forall>part \<in> set parts. \<exists>new. parsePart part = Inr new"
proof (rule ccontr)
  assume "\<not> (\<forall>part \<in> set parts. \<exists>new. parsePart part = Inr new)"
  then have "\<exists>part \<in> set parts. \<not> (\<exists>new. parsePart part = Inr new)" by simp
  from first_rejected [OF this] obtain pre bad post
    where p: "parts = pre @ bad # post" "\<forall>q \<in> set pre. \<exists>new. parsePart q = Inr new"
      "\<not> (\<exists>new. parsePart bad = Inr new)"
    by blast
  then obtain err where "parsePart bad = Inl err"
    by (cases "parsePart bad") auto
  with p have "parseParts parts acc = Inl err"
    by (simp add: parseParts_Inl)
  with assms show False by simp
qed

lemma uniqueSortedPorts_props:
  "sorted (uniqueSortedPorts ports)" "distinct (uniqueSortedPorts ports)"
  "set (uniqueSortedPorts ports) = set ports"
  by (simp_all add: uniqueSortedPorts_def)

lemma uniqueSortedPorts_set:
  "set ports = set ports' \<Longrightarrow> uniqueSortedPorts ports = uniqueSortedPorts ports'"
  using uniqueSortedPorts_props [of ports] uniqueSortedPorts_props [of ports']
  by (simp add: sorted_distinct_set_unique)

lemma parsePorts_parts:
  assumes "portSpec \<noteq> ''common''" and "parsePorts portSpec = Inr ports"
  shows "\<forall>part \<in> set (Split portSpec (CHR '','')). \<exists>new. parsePart part = Inr new"
    and "ports = uniqueSortedPorts (concat (map portsOf (Split portSpec (CHR '',''))))"
proof -
  from assms obtain raw where raw: "parseParts (Split portSpec (CHR '','')) [] = Inr raw"
    and ports: "ports = uniqueSortedPorts raw"
    by (auto simp: parsePorts_def split: sum.splits)
  from raw show ok: "\<forall>part \<in> set (Split portSpec (CHR '','')). \<exists>new. parsePart part = Inr new"
    by (rule parseParts_success)
  from parseParts_Inr [OF ok, of "[]"] raw ports
  show "ports = uniqueSortedPorts (concat (map portsOf (Split portSpec (CHR '',''))))"
    by simp
qed

lemma portsOf_range:
  assumes "p \<in> set (portsOf part)"
  shows "1 \<le> p \<and> p \<le> 65535"
proof (cases "parsePart part")
  case (Inl err)
  with assms show ?thesis by (simp add: portsOf_def)
next
  case (Inr new)
  with assms parsePart_ports [OF Inr] show ?thesis by (simp add: portsOf_def)
qed

text \<open>
  What the resolver does on every specification but the keyword: the claim
  of C2 holds on this path.
\<close>

lemma parsePorts_resolved:
  assumes "portSpec \<noteq> ''common''" and "parsePorts portSpec = Inr ports"
  shows "sorted ports \<and> distinct ports \<and> ports \<noteq> [] \<and> (\<forall>p \<in> set ports. 1 \<le> p \<and> p \<le> 65535)"
proof -
  let ?parts = "Split portSpec (CHR '','')"
  note p = parsePorts_parts [OF assms]
  from p(2) have sd: "sorted ports" "distinct ports"
    and set: "set ports = set (concat (map portsOf ?parts))"
    by (simp_all add: uniqueSortedPorts_props)
  from set have range: "\<forall>p \<in> set ports. 1 \<le> p \<and> p \<le> 65535"
    using portsOf_range by auto
  obtain part rest where parts: "?parts = part # rest"
    using Split_not_Nil [of portSpec "CHR '',''"] by (cases ?parts) auto
  with p(1) obtain new where "parsePart part = Inr new" by auto
  with parsePart_ports [OF this] have "portsOf part \<noteq> []"
    by (simp add: portsOf_def)
  with parts set have "ports \<noteq> []" by auto
  with sd range show ?thesis by simp
qed

lemma parsePorts_order_independent:
  assumes "portSpec \<noteq> ''common''" and "portSpec' \<noteq> ''common''"
    and "set (Split portSpec' (CHR '','')) = set (Split portSpec (CHR '',''))"
    and "parsePorts portSpec = Inr ports"
  shows "parsePorts portSpec' = Inr ports"
proof -
  note p = parsePorts_parts [OF assms(1,4)]
  from p(1) assms(3)
  have ok: "\<forall>part \<in> set (Split portSpec' (CHR '','')). \<exists>new. parsePart part = Inr new"
    by simp
  have "set (concat (map portsOf (Split portSpec' (CHR '',''))))
      = set (concat (map portsOf (Split portSpec (CHR '',''))))"
    using assms(3) by simp
  then have "uniqueSortedPorts (concat (map portsOf (Split portSpec' (CHR '',''))))
      = uniqueSortedPorts (concat (map portsOf (Split portSpec (CHR '',''))))"
    by (rule uniqueSortedPorts_set)
  with parseParts_Inr [OF ok, of "[]"] p(2) assms(2) show ?thesis
    by (simp add: parsePorts_def)
qed

text \<open>
  Claim C2, at the specification \<open>common\<close> (the default of the flag \<open>-p\<close>):
  the resolver returns the list of \<open>getCommonPorts\<close> as it is written, past
  \<open>uniqueSortedPorts\<close>. The list is not ascending (135 follows 995) and not
  deduplicated (993 and 995 occur twice).
\<close>

theorem parsePorts_common_unsorted:
  "parsePorts ''common''
     = Inr [21, 22, 23, 25, 53, 80, 110, 143, 443, 993, 995, 135, 139, 445, 993, 995,
            1723, 3306, 3389, 5432, 5900, 8080, 8443, 9200, 27017]
   \<and> \<not> sorted getCommonPorts \<and> \<not> distinct getCommonPorts
   \<and> count_list getCommonPorts 993 = 2 \<and> count_list getCommonPorts 995 = 2
   \<and> uniqueSortedPorts getCommonPorts
       = [21, 22, 23, 25, 53, 80, 110, 135, 139, 143, 443, 445, 993, 995, 1723, 3306,
          3389, 5432, 5900, 8080, 8443, 9200, 27017]"
  by (simp add: parsePorts_def getCommonPorts_def uniqueSortedPorts_def)

lemma parsePorts_rejects:
  assumes "portSpec \<noteq> ''common''"
    and "Split portSpec (CHR '','') = pre @ bad # post"
    and "\<forall>q \<in> set pre. wellFormedToken (TrimSpace q)"
    and "parsePart bad = Inl err"
  shows "parsePorts portSpec = Inl err"
proof -
  from assms(3) have "\<forall>q \<in> set pre. \<exists>new. parsePart q = Inr new"
    by (simp add: parsePart_wellFormed)
  from parseParts_Inl [OF this assms(4), of post "[]"] assms(1,2) show ?thesis
    by (simp add: parsePorts_def)
qed

lemma parsePart_common:
  assumes "TrimSpace part = ''common''"
  shows "parsePart part = Inl ''invalid port: common''"
proof -
  have "\<not> Contains ''common'' ''-''" by (simp add: Contains_byte)
  moreover have "Atoi ''common'' = None" by code_simp
  ultimately show ?thesis using assms by (simp add: parsePart_def)
qed


text \<open>
  Claim C5 fails: in the specification \<open>80,common\<close> the token \<open>common\<close> is
  parsed as a port number and rejected.
\<close>

theorem common_among_tokens_counterexample:
  "parsePorts ''80,common'' = Inl ''invalid port: common''"
  by code_simp

text \<open>
  Claim C5, amended. The keyword is recognised only as the whole
  specification: \<open>common\<close> alone resolves to the list of \<open>getCommonPorts\<close>. In
  any other specification a token \<open>common\<close> is not expanded: resolution
  fails, with the error \<open>invalid port: common\<close> when the tokens before it are
  well-formed.
\<close>

theorem common_only_alone:
  "parsePorts ''common'' = Inr getCommonPorts
   \<and> (portSpec \<noteq> ''common''
        \<and> (\<exists>part \<in> set (Split portSpec (CHR '','')). TrimSpace part = ''common'')
      \<longrightarrow> (\<exists>err. parsePorts portSpec = Inl err))
   \<and> (portSpec \<noteq> ''common'' \<and> Split portSpec (CHR '','') = pre @ part # post
        \<and> (\<forall>q \<in> set pre. wellFormedToken (TrimSpace q)) \<and> TrimSpace part = ''common''
      \<longrightarrow> parsePorts portSpec = Inl ''invalid port: common'')"
proof -
  have alone: "parsePorts ''common'' = Inr getCommonPorts"
    by (simp add: parsePorts_def)
  have fails: "\<exists>err. parsePorts portSpec = Inl err"
    if ne: "portSpec \<noteq> ''common''"
      and ex: "\<exists>part \<in> set (Split portSpec (CHR '','')). TrimSpace part = ''common''"
  proof (rule ccontr)
    assume "\<nexists>err. parsePorts portSpec = Inl err"
    then obtain ports where "parsePorts portSpec = Inr ports"
      by (cases "parsePorts portSpec") auto
    from parsePorts_parts(1) [OF ne this] ex obtain part new
      where "TrimSpace part = ''common''" "parsePart part = Inr new"
      by blast
    then show False by (simp add: parsePart_common)
  qed
  have named: "parsePorts portSpec = Inl ''invalid port: common''"
    if "portSpec \<noteq> ''common''" "Split portSpec (CHR '','') = pre @ part # post"
      "\<forall>q \<in> set pre. wellFormedToken (TrimSpace q)" "TrimSpace part = ''common''"
    using that parsePorts_rejects parsePart_common by blast
  from alone fails named show ?thesis by blast
qed

theorem common_only_alone_witness:
  "''80,common'' \<noteq> ''common'' \<and> Split ''80,common'' (CHR '','') = [''80''] @ ''common'' # []
   \<and> wellFormedToken (TrimSpace ''80'') \<and> TrimSpace ''common'' = ''common''
   \<and> parsePorts ''80,common'' = Inl ''invalid port: common''
   \<and> parsePorts ''common'' = Inr getCommonPorts"
proof -
  have 1: "''80,common'' \<noteq> ''common''" by simp
  have 2: "Split ''80,common'' (CHR '','') = [''80''] @ ''common'' # []" by simp
  have 3: "wellFormedToken (TrimSpace ''80'')" by code_simp
  have 4: "TrimSpace ''common'' = ''common''" by code_simp
  from common_only_alone [of "''80,common''" "[''80'']" "''common''" "[]"] 1 2 3 4
  show ?thesis by simp
qed







subsection \<open>The scan as a whole\<close>

text \<open>
  With a port list free of duplicates, as every specification but the keyword
  \<open>common\<close> resolves to, each requested port has exactly one result.
\<close>

lemma Scan_each_port_once:
  assumes "Scan ps (dialled, Inr summary)" and "0 < Concurrency ps"
    and "distinct (Ports ps)"
  shows "distinct (map Port (Results summary))"
    and "set (map Port (Results summary)) = set (Ports ps)"
    and "map Port (Results summary) = sort (Ports ps)"
proof -
  note sum = Scan_summary [OF assms(1)]
  from sum(4) assms(2) have m: "mset (map Port (Results summary)) = mset (Ports ps)"
    by simp
  from m assms(3) show d: "distinct (map Port (Results summary))"
    by (metis mset_eq_imp_distinct_iff)
  from m show s: "set (map Port (Results summary)) = set (Ports ps)"
    by (rule mset_eq_setD)
  from sum(3) d s assms(3) show "map Port (Results summary) = sort (Ports ps)"
    by (simp add: sorted_distinct_set_unique)
qed

text \<open>
  With a concurrency that is not positive no worker is started: the scan
  returns at once, with an empty summary.
\<close>

lemma Scan_without_workers:
  assumes "Scan ps (dialled, Inr summary)" and "Concurrency ps \<le> 0"
  shows "dialled = [] \<and> Results summary = [] \<and> TotalPorts summary = 0"
proof -
  from assms(1) obtain s rs d where sp: "scanPorts ps s rs"
    and sm: "summary = summarize (PortScanner.Target ps) d rs" and dl: "dialled = probed s"
    by (auto elim: Scan.cases)
  from sp have "poolRun ps s" and "mset rs = mset (scanResults s)"
    by (simp_all add: scanPorts_def sort_Slice_def)
  with pool_without_workers [of ps s] assms(2) have "probed s = []" "rs = []"
    by simp_all
  with sm dl show ?thesis
    by (simp add: summarize_totals)
qed

lemma main_Printed:
  assumes "main f (dialled, Printed fmt summary)"
  obtains portList where "parsePorts (portsFlag f) = Inr portList"
    and "Scan \<lparr>PortScanner.Target = targetFlag f, Ports = portList,
           Concurrency = concurrencyFlag f, Timeout = timeoutFlag f * 1000000,
           Verbose = verboseFlag f\<rparr> (dialled, Inr summary)"
  using assms by (cases rule: main.cases) auto

text \<open>
  Claim C1, at the default flags (\<open>-p common\<close>). The equations between the
  counts hold for every summary (lemma \<open>Scan_summary\<close>), and every entry of
  the port list has exactly one result; but the list resolved from \<open>common\<close>
  has the ports 993 and 995 twice, so every summary of such a scan has two
  results for each of them: 25 results for 23 ports.
\<close>

theorem common_scan_repeats_ports:
  assumes "main f (dialled, Printed fmt summary)"
    and "portsFlag f = ''common''" and "0 < concurrencyFlag f"
  shows "count_list (map Port (Results summary)) 993 = 2
    \<and> count_list (map Port (Results summary)) 995 = 2
    \<and> \<not> distinct (map Port (Results summary))
    \<and> TotalPorts summary = 25 \<and> card (set (map Port (Results summary))) = 23
    \<and> TotalPorts summary = int (length (Results summary))
    \<and> TotalPorts summary = OpenPorts summary + ClosedPorts summary + Filtered summary"
proof -
  from assms(1) obtain portList where p: "parsePorts (portsFlag f) = Inr portList"
    and s: "Scan \<lparr>PortScanner.Target = targetFlag f, Ports = portList,
           Concurrency = concurrencyFlag f, Timeout = timeoutFlag f * 1000000,
           Verbose = verboseFlag f\<rparr> (dialled, Inr summary)"
    by (rule main_Printed)
  from p assms(2) have pl: "portList = getCommonPorts"
    by (simp add: parsePorts_def)
  note sum = Scan_summary [OF s]
  from sum(4) assms(3) pl
  have m: "mset (map Port (Results summary)) = mset getCommonPorts"
    by simp
  then have c: "count_list (map Port (Results summary)) x = count_list getCommonPorts x" for x
    by (metis count_mset)
  have 1: "count_list (map Port (Results summary)) 993 = 2"
    by (simp add: c getCommonPorts_def)
  have 2: "count_list (map Port (Results summary)) 995 = 2"
    by (simp add: c getCommonPorts_def)
  from m have "distinct (map Port (Results summary)) \<longleftrightarrow> distinct getCommonPorts"
    by (rule mset_eq_imp_distinct_iff)
  then have 3: "\<not> distinct (map Port (Results summary))"
    by (simp add: getCommonPorts_def)
  from m have "length (map Port (Results summary)) = length getCommonPorts"
    by (rule mset_eq_length)
  with sum(1) have 4: "TotalPorts summary = 25"
    by (simp add: getCommonPorts_def)
  from m have "set (map Port (Results summary)) = set getCommonPorts"
    by (rule mset_eq_setD)
  moreover have "length (remdups getCommonPorts) = 23"
    by (simp add: getCommonPorts_def)
  ultimately have 5: "card (set (map Port (Results summary))) = 23"
    by (simp only: card_set)
  from 1 2 3 4 5 sum(1,2) show ?thesis by (intro conjI)
qed

theorem common_scan_repeats_ports_witness:
  "\<exists>dialled summary.
     main \<lparr>targetFlag = ''localhost'', portsFlag = ''common'', concurrencyFlag = 100,
           timeoutFlag = 1000, outputFlag = ''text'', verboseFlag = False,
           helpFlag = False\<rparr> (dialled, Printed ''text'' summary)
     \<and> count_list (map Port (Results summary)) 993 = 2 \<and> TotalPorts summary = 25"
proof -
  define f where "f = \<lparr>targetFlag = ''localhost'', portsFlag = ''common'',
    concurrencyFlag = 100, timeoutFlag = 1000, outputFlag = ''text'', verboseFlag = False,
    helpFlag = False\<rparr>"
  obtain dialled summary
    where "Scan \<lparr>PortScanner.Target = targetFlag f, Ports = getCommonPorts,
           Concurrency = concurrencyFlag f, Timeout = timeoutFlag f * 1000000,
           Verbose = verboseFlag f\<rparr> (dialled, Inr summary)"
    using Scan_returns by blast
  moreover have "parsePorts (portsFlag f) = Inr getCommonPorts"
    by (simp add: f_def parsePorts_def)
  moreover have "\<not> helpFlag f" "targetFlag f \<noteq> []" "outputFlag f \<in> {''text'', ''json'', ''csv''}"
    by (simp_all add: f_def)
  ultimately have run: "main f (dialled, Printed (outputFlag f) summary)"
    by (simp add: scanPrinted)
  have "portsFlag f = ''common''" "0 < concurrencyFlag f"
    by (simp_all add: f_def)
  from common_scan_repeats_ports [OF run this]
  have "count_list (map Port (Results summary)) 993 = 2 \<and> TotalPorts summary = 25"
    by simp
  with run show ?thesis
    unfolding f_def by auto
qed

subsection \<open>The coordinator\<close>

text \<open>
  Claim C9. For every port sequence and every concurrency limit \<open>C\<close> (a
  positive integer), in every state the pool can reach: at most \<open>C\<close> probes
  are in flight; the ports probed so far are among the ports of the sequence,
  none more often than it occurs there; every collected outcome belongs to a
  probe that was made. When the collecting loop ends, the ports probed are the
  sequence rearranged, no entry skipped and none probed twice, and the
  collected outcomes are the results of exactly these probes, one each. The
  pool cannot stall or run forever before that: a state in which the loop has
  not ended has a next step, and every step decreases \<open>weight\<close>.

  \<open>scanPorts\<close> returns only from a state in which the loop has ended: the
  sender has sent every port, the channel \<open>jobs\<close> is empty, every worker has
  exited, and what is returned holds exactly one outcome of a probe for every
  entry of the port sequence. From every state the pool can reach, it can go
  on to such a state, and \<open>scanPorts\<close> returns.
\<close>

theorem worker_pool_coordinator:
  assumes "poolRun ps s" and "0 < Concurrency ps"
  shows "inFlight s \<le> nat (Concurrency ps)
    \<and> mset (probed s) \<subseteq># mset (Ports ps)
    \<and> mset (map Port (scanResults s)) \<subseteq># mset (probed s)
    \<and> (drained s \<longrightarrow>
          mset (probed s) = mset (Ports ps)
          \<and> mset (map Port (scanResults s)) = mset (Ports ps)
          \<and> (\<forall>r \<in> set (scanResults s). probeResult r))
    \<and> (\<not> drained s \<longrightarrow> (\<exists>s'. poolStep (length (Ports ps)) s s'))
    \<and> (\<forall>s'. poolStep (length (Ports ps)) s s' \<longrightarrow> weight s' < weight s)
    \<and> (\<forall>rs. scanPorts ps s rs \<longrightarrow>
          drained s \<and> unsent s = [] \<and> jobs s = []
          \<and> list_all (\<lambda>w. w = Exited) (workers s)
          \<and> mset rs = mset (scanResults s)
          \<and> mset (map Port rs) = mset (Ports ps)
          \<and> mset (map Port rs) = mset (probed s)
          \<and> (\<forall>r \<in> set rs. probeResult r))
    \<and> (\<exists>t out. (poolStep (length (Ports ps)))\<^sup>*\<^sup>* s t \<and> scanPorts ps t out)"
proof -
  from assms(1) have inv: "poolInv ps s"
    by (rule poolRun_poolInv)
  have flight: "inFlight s \<le> nat (Concurrency ps)"
    using inFlight_le [of s] inv by (simp add: poolInv_def)
  have sub: "mset (probed s) \<subseteq># mset (Ports ps)"
    using inv by (rule probed_subset)
  from inv have "mset (probed s) = inHand (workers s) + reported s"
    by (simp add: poolInv_def)
  then have made: "mset (map Port (scanResults s)) \<subseteq># mset (probed s)"
    by (simp add: reported_def)
  from inv have valid: "\<forall>r \<in> set (scanResults s). probeResult r"
    by (simp add: poolInv_def)
  have complete: "mset (probed s) = mset (Ports ps)
      \<and> mset (map Port (scanResults s)) = mset (Ports ps)" if "drained s"
    using drained_complete(4,5) [OF inv that assms(2)] by simp
  have live: "\<exists>s'. poolStep (length (Ports ps)) s s'" if "\<not> drained s"
    using inv that by (rule pool_progress)
  have returned: "drained s \<and> unsent s = [] \<and> jobs s = []
      \<and> list_all (\<lambda>w. w = Exited) (workers s)
      \<and> mset rs = mset (scanResults s)
      \<and> mset (map Port rs) = mset (Ports ps)
      \<and> mset (map Port rs) = mset (probed s)
      \<and> (\<forall>r \<in> set rs. probeResult r)" if sp: "scanPorts ps s rs" for rs
  proof -
    from sp have d: "drained s"
      by (simp add: scanPorts_def)
    note c = drained_complete [OF inv d assms(2)]
    from inv d have ex: "list_all (\<lambda>w. w = Exited) (workers s)"
      by (simp add: poolInv_def drained_def)
    note r = scanPorts_results [OF sp]
    from r(1) have "mset (map Port rs) = mset (map Port (scanResults s))"
      by simp
    with c(4,5) have "mset (map Port rs) = mset (Ports ps)"
      "mset (map Port rs) = mset (probed s)"
      by simp_all
    with d c(1,2) ex r(1,3) show ?thesis by simp
  qed
  have returns: "\<exists>t out. (poolStep (length (Ports ps)))\<^sup>*\<^sup>* s t \<and> scanPorts ps t out"
  proof -
    from pool_finishes_from [OF inv]
    obtain t where t: "(poolStep (length (Ports ps)))\<^sup>*\<^sup>* s t" "drained t"
      by blast
    from assms(1) t(1) have "poolRun ps t"
      by (simp add: poolRun_def)
    with t(2) have "scanPorts ps t (sort_key Port (scanResults t))"
      by (simp add: scanPorts_def sort_Slice_exists)
    with t(1) show ?thesis by blast
  qed
  have first: "inFlight s \<le> nat (Concurrency ps)
    \<and> mset (probed s) \<subseteq># mset (Ports ps)
    \<and> mset (map Port (scanResults s)) \<subseteq># mset (probed s)
    \<and> (drained s \<longrightarrow>
          mset (probed s) = mset (Ports ps)
          \<and> mset (map Port (scanResults s)) = mset (Ports ps)
          \<and> (\<forall>r \<in> set (scanResults s). probeResult r))
    \<and> (\<not> drained s \<longrightarrow> (\<exists>s'. poolStep (length (Ports ps)) s s'))
    \<and> (\<forall>s'. poolStep (length (Ports ps)) s s' \<longrightarrow> weight s' < weight s)"
    using flight sub made valid complete live poolStep_weight by blast
  from returned have every: "\<forall>rs. scanPorts ps s rs \<longrightarrow>
          drained s \<and> unsent s = [] \<and> jobs s = []
          \<and> list_all (\<lambda>w. w = Exited) (workers s)
          \<and> mset rs = mset (scanResults s)
          \<and> mset (map Port rs) = mset (Ports ps)
          \<and> mset (map Port rs) = mset (probed s)
          \<and> (\<forall>r \<in> set rs. probeResult r)"
    by blast
  from first every returns show ?thesis
    by (elim conjE) (intro conjI, assumption+)
qed

theorem worker_pool_coordinator_witness:
  "(let ps = \<lparr>PortScanner.Target = ''127.0.0.1'', Ports = [80], Concurrency = 1,
               Timeout = 1000000000, Verbose = False\<rparr>;
        refused = \<lparr>Port = 80, Status = ''closed'', Service = [], Banner = [], Latency = 0,
                    Error = ''connect: connection refused''\<rparr>;
        s = \<lparr>unsent = [], jobs = [], jobsClosed = True, workers = [Exited], results = [],
              resultsClosed = True, scanResults = [refused], probed = [80]\<rparr>
    in poolRun ps s \<and> 0 < Concurrency ps \<and> drained s \<and> inFlight s \<le> 1
       \<and> scanPorts ps s [refused]
       \<and> mset (probed s) = mset (Ports ps)
       \<and> mset (map Port (scanResults s)) = mset (Ports ps))"
proof -
  define ps where "ps = \<lparr>PortScanner.Target = ''127.0.0.1'', Ports = [80], Concurrency = 1,
    Timeout = 1000000000, Verbose = False\<rparr>"
  define a where "a = \<lparr>dial = DialFailed (NetError False ''connect: connection refused''),
    elapsed = 0\<rparr>"
  define refused where "refused = \<lparr>Port = 80, Status = ''closed'', Service = [],
    Banner = [], Latency = 0, Error = ''connect: connection refused''\<rparr>"
  define s0 where "s0 = \<lparr>unsent = [80], jobs = [], jobsClosed = False,
    workers = [Receiving], results = [], resultsClosed = False, scanResults = [],
    probed = []\<rparr>"
  define s where "s = \<lparr>unsent = [], jobs = [], jobsClosed = True, workers = [Exited],
    results = [], resultsClosed = True, scanResults = [refused], probed = [80]\<rparr>"
  have r: "scanPort a 80 = refused"
    by (simp add: a_def refused_def scanPort_DialFailed HasPrefix_def)
  have start: "startPool ps = s0"
    by (simp add: startPool_def ps_def s0_def)
  have 1: "poolStep 1 s0 (s0\<lparr>unsent := [], jobs := [80]\<rparr>)"
    using sendJob [of s0 80 "[]" 1] by (simp add: s0_def)
  have 2: "poolStep 1 (s0\<lparr>unsent := [], jobs := [80]\<rparr>)
      (s0\<lparr>unsent := [], workers := [Probing 80], probed := [80]\<rparr>)"
    using receiveJob [of 0 "s0\<lparr>unsent := [], jobs := [80]\<rparr>" 80 "[]" 1] by (simp add: s0_def)
  have 3: "poolStep 1 (s0\<lparr>unsent := [], workers := [Probing 80], probed := [80]\<rparr>)
      (s0\<lparr>unsent := [], workers := [Sending refused], probed := [80]\<rparr>)"
    using probeDone [of 0 "s0\<lparr>unsent := [], workers := [Probing 80], probed := [80]\<rparr>" 80 1 a]
    by (simp add: s0_def r)
  have 4: "poolStep 1 (s0\<lparr>unsent := [], workers := [Sending refused], probed := [80]\<rparr>)
      (s0\<lparr>unsent := [], results := [refused], probed := [80]\<rparr>)"
    using sendResult [of 0 "s0\<lparr>unsent := [], workers := [Sending refused], probed := [80]\<rparr>"
        refused 1]
    by (simp add: s0_def)
  have 5: "poolStep 1 (s0\<lparr>unsent := [], results := [refused], probed := [80]\<rparr>)
      (s0\<lparr>unsent := [], jobsClosed := True, results := [refused], probed := [80]\<rparr>)"
    using closeJobs [of "s0\<lparr>unsent := [], results := [refused], probed := [80]\<rparr>" 1]
    by (simp add: s0_def)
  have 6: "poolStep 1
      (s0\<lparr>unsent := [], jobsClosed := True, results := [refused], probed := [80]\<rparr>)
      (s0\<lparr>unsent := [], jobsClosed := True, workers := [Exited], results := [refused],
          probed := [80]\<rparr>)"
    using workerExit [of 0
        "s0\<lparr>unsent := [], jobsClosed := True, results := [refused], probed := [80]\<rparr>" 1]
    by (simp add: s0_def)
  have 7: "poolStep 1
      (s0\<lparr>unsent := [], jobsClosed := True, workers := [Exited], results := [refused],
          probed := [80]\<rparr>)
      (s0\<lparr>unsent := [], jobsClosed := True, workers := [Exited], results := [refused],
          resultsClosed := True, probed := [80]\<rparr>)"
    using closeResults [of "s0\<lparr>unsent := [], jobsClosed := True, workers := [Exited],
        results := [refused], probed := [80]\<rparr>" 1]
    by (simp add: s0_def)
  have 8: "poolStep 1
      (s0\<lparr>unsent := [], jobsClosed := True, workers := [Exited], results := [refused],
          resultsClosed := True, probed := [80]\<rparr>) s"
    using collect [of "s0\<lparr>unsent := [], jobsClosed := True, workers := [Exited],
        results := [refused], resultsClosed := True, probed := [80]\<rparr>" refused "[]" 1]
    by (simp add: s0_def s_def)
  have "(poolStep 1)\<^sup>*\<^sup>* s0 s"
    using 1 2 3 4 5 6 7 8 by (meson rtranclp.rtrancl_into_rtrancl rtranclp.rtrancl_refl)
  then have run: "poolRun ps s"
    using start by (simp add: poolRun_def ps_def)
  have c: "0 < Concurrency ps" by (simp add: ps_def)
  have d: "drained s" by (simp add: drained_def s_def)
  have sp: "scanPorts ps s [refused]"
    using run d by (simp add: scanPorts_def sort_Slice_def s_def)
  from worker_pool_coordinator [OF run c] d
  have "inFlight s \<le> nat (Concurrency ps) \<and> mset (probed s) = mset (Ports ps)
      \<and> mset (map Port (scanResults s)) = mset (Ports ps)"
    by simp
  with run c d sp show ?thesis
    unfolding ps_def s_def refused_def Let_def by simp
qed

subsection \<open>Order independence of the aggregator\<close>










end
